theory Spec2Isabelle
  imports Main "HOL-Library.Multiset"
begin

section \<open>AsyncTaskPool with add / runNext / checkIfDone / awaitAll\<close>

text \<open>
  The second \<open>AsyncTaskPool\<close> class of \<^verbatim>\<open>src/PriorityEventEmitter.ts\<close> (lines 208-285).

  A task is a closure \<open>() => Promise<T>\<close>; the pool only ever stores and calls it, so
  the model keeps a task as a value of an arbitrary type \<open>'t\<close> (its identity) and takes
  what the call does from the environment: a call returns a promise, as the type says, and
  that promise is later fulfilled with a value or rejected. A task that calls \<open>add\<close> while
  it is being started does what the same \<open>add\<close> does right after the start: the loop of
  \<open>runNext\<close> reads the fields again in every round.

  Every call \<open>task()\<close> in \<open>runNext\<close> builds the promise chain
  \<^verbatim>\<open>task().then(push result).catch(push task back).finally(count down, runNext, checkIfDone)\<close>.
  The handlers of one chain run in separate microtasks, so handlers of other chains and
  calls of \<open>add\<close> may run between the \<open>then\<close>/\<open>catch\<close> handler and the \<open>finally\<close>
  handler of a chain. A chain is therefore in one of two phases.
\<close>

datatype 'r outcome = Fulfilled 'r | Rejected

datatype phase = Pending | Handled

datatype pool_error = PoolClosed

text \<open>
  The first six fields are the fields of the class. The others record what the
  environment holds and what an observer sees: the promise chains whose \<open>finally\<close> handler
  has not run yet, the tasks in the order their bodies were started, the tasks accepted by
  \<open>add\<close>, the task behind each entry of \<open>results\<close>, and the \<open>awaitAll\<close> promises that were
  resolved through \<open>pendingResolvers\<close> together with the value they got.
\<close>

record ('t, 'r) pool =
  concurrency :: int
  runningCount :: int
  taskQueue :: "'t list"
  results :: "'r list"
  finished :: bool
  pendingResolvers :: "nat list"
  chains :: "('t \<times> phase) list"
  started :: "'t list"
  submitted :: "'t list"
  succeeded :: "'t list"
  resolved :: "(nat \<times> 'r list) list"

definition init :: "int \<Rightarrow> ('t, 'r) pool" where
  "init c = \<lparr>concurrency = c, runningCount = 0, taskQueue = [], results = [],
     finished = False, pendingResolvers = [], chains = [], started = [], submitted = [],
     succeeded = [], resolved = []\<rparr>"

text \<open>
  \<open>runNext\<close>: the while loop shifts the head of the queue, counts it as running and calls
  it; the call returns a pending promise.
\<close>

function runNext :: "('t, 'r) pool \<Rightarrow> ('t, 'r) pool" where
  "runNext s =
     (if runningCount s < concurrency s \<and> taskQueue s \<noteq> [] then
        runNext (s\<lparr>taskQueue := tl (taskQueue s),
                    runningCount := runningCount s + 1,
                    chains := chains s @ [(hd (taskQueue s), Pending)],
                    started := started s @ [hd (taskQueue s)]\<rparr>)
      else s)"
  by pat_completeness auto
termination
  by (relation "measure (\<lambda>s. length (taskQueue s))") auto

declare runNext.simps [simp del]

definition checkIfDone :: "('t, 'r) pool \<Rightarrow> ('t, 'r) pool" where
  "checkIfDone s =
     (if runningCount s = 0 \<and> taskQueue s = [] then
        s\<lparr>finished := True,
          resolved := resolved s @ map (\<lambda>w. (w, results s)) (pendingResolvers s),
          pendingResolvers := []\<rparr>
      else s)"

definition add :: "'t \<Rightarrow> ('t, 'r) pool \<Rightarrow> pool_error + ('t, 'r) pool" where
  "add task s =
     (if finished s then Inl PoolClosed
      else Inr (runNext (s\<lparr>taskQueue := taskQueue s @ [task],
                            submitted := submitted s @ [task]\<rparr>)))"

text \<open>
  \<open>awaitAll\<close> for the caller \<open>w\<close>: the value the returned promise is resolved with at once
  (\<open>None\<close> when it stays pending and a resolver is registered), and the pool afterwards.
\<close>

definition awaitAll :: "nat \<Rightarrow> ('t, 'r) pool \<Rightarrow> 'r list option \<times> ('t, 'r) pool" where
  "awaitAll w s =
     (if finished s then (Some (results s), s)
      else (None, s\<lparr>pendingResolvers := pendingResolvers s @ [w]\<rparr>))"

text \<open>
  The \<open>then\<close> handler (on a fulfilled call) or the \<open>catch\<close> handler (on a rejected one) of
  the \<open>i\<close>-th chain, and its \<open>finally\<close> handler.
\<close>

definition settle :: "nat \<Rightarrow> 'r outcome \<Rightarrow> ('t, 'r) pool \<Rightarrow> ('t, 'r) pool" where
  "settle i out s =
     (case out of
        Fulfilled res \<Rightarrow>
          s\<lparr>results := results s @ [res],
            succeeded := succeeded s @ [fst (chains s ! i)],
            chains := (chains s)[i := (fst (chains s ! i), Handled)]\<rparr>
      | Rejected \<Rightarrow>
          s\<lparr>taskQueue := taskQueue s @ [fst (chains s ! i)],
            chains := (chains s)[i := (fst (chains s ! i), Handled)]\<rparr>)"

definition onFinally :: "nat \<Rightarrow> ('t, 'r) pool \<Rightarrow> ('t, 'r) pool" where
  "onFinally i s =
     checkIfDone (runNext (s\<lparr>runningCount := runningCount s - 1,
                              chains := take i (chains s) @ drop (Suc i) (chains s)\<rparr>))"

text \<open>
  What can happen to a pool: a caller adds a task or awaits the end, the promise of a
  started task settles, a settled chain runs its \<open>finally\<close> handler. An event that cannot
  happen in the state (a chain that does not exist or is in the other phase, an \<open>add\<close> that
  throws) leaves the state as it is.
\<close>

datatype ('t, 'r) event = Add 't | Settle nat "'r outcome" | Finally nat | AwaitAll nat

fun apply_event :: "('t, 'r) pool \<Rightarrow> ('t, 'r) event \<Rightarrow> ('t, 'r) pool" where
  "apply_event s (Add task) = (case add task s of Inl _ \<Rightarrow> s | Inr s' \<Rightarrow> s')"
| "apply_event s (Settle i out) =
     (if i < length (chains s) \<and> snd (chains s ! i) = Pending then settle i out s else s)"
| "apply_event s (Finally i) =
     (if i < length (chains s) \<and> snd (chains s ! i) = Handled then onFinally i s else s)"
| "apply_event s (AwaitAll w) = snd (awaitAll w s)"

definition exec :: "('t, 'r) event list \<Rightarrow> ('t, 'r) pool \<Rightarrow> ('t, 'r) pool" where
  "exec evs s = foldl apply_event s evs"

text \<open>The tasks whose call is still pending, and what holds in every state of a pool.\<close>

definition pending_tasks :: "('t \<times> phase) list \<Rightarrow> 't list" where
  "pending_tasks cs = map fst (filter (\<lambda>c. snd c = Pending) cs)"

definition pool_inv :: "('t, 'r) pool \<Rightarrow> bool" where
  "pool_inv s \<longleftrightarrow>
     runningCount s = int (length (chains s)) \<and>
     runningCount s \<le> max 0 (concurrency s) \<and>
     (finished s \<longrightarrow> taskQueue s = [] \<and> chains s = [] \<and> pendingResolvers s = []) \<and>
     (\<not> finished s \<longrightarrow> resolved s = []) \<and>
     (\<forall>x \<in> set (resolved s). snd x = results s) \<and>
     mset (submitted s) = mset (taskQueue s) + mset (pending_tasks (chains s)) + mset (succeeded s) \<and>
     length (succeeded s) = length (results s) \<and>
     (chains s \<noteq> [] \<or> finished s \<longrightarrow> submitted s \<noteq> [])"

definition busy_inv :: "('t, 'r) pool \<Rightarrow> bool" where
  "busy_inv s \<longleftrightarrow>
     (\<not> finished s \<and> submitted s \<noteq> [] \<longrightarrow> runningCount s \<noteq> 0 \<or> taskQueue s \<noteq> [])"

text \<open>What holds of a caller \<open>w\<close> that awaits the end of the pool.\<close>

definition waiter_inv :: "nat \<Rightarrow> ('t, 'r) pool \<Rightarrow> bool" where
  "waiter_inv w s \<longleftrightarrow>
     (if finished s then (w, results s) \<in> set (resolved s) else w \<in> set (pendingResolvers s))"




text \<open>A task that always fails, driven through \<open>n\<close> rounds of rejection and \<open>finally\<close>.\<close>

fun failing_rounds :: "nat \<Rightarrow> ('t, 'r) event list" where
  "failing_rounds 0 = []"
| "failing_rounds (Suc n) = failing_rounds n @ [Settle 0 Rejected, Finally 0]"

section \<open>AsyncTaskPool with addTask / runTasks / checkAllCompleted / waitForAll\<close>

text \<open>
  The first \<open>AsyncTaskPool\<close> class of \<^verbatim>\<open>src/PriorityEventEmitter.ts\<close> (lines 116-207).
  \<open>runTasks\<close> is an async function: a call runs to its first \<open>await task()\<close> and is
  suspended there; when the awaited promise settles, the call goes on in one piece through
  \<open>try\<close>/\<open>catch\<close>/\<open>finally\<close> and the loop test to its next \<open>await\<close> or to its end.
  \<open>awaiting\<close> holds, for each suspended call of \<open>runTasks\<close>, the task it awaits;
  \<open>completion\<close> is the value \<open>completionPromise\<close> was resolved with. A call of
  \<open>runTasks\<close> never throws, so \<open>rejectCompletion\<close> is never called.
\<close>

datatype pool1_error = InvalidConcurrency | AllCompleted

record ('t, 'r) pool1 =
  maxConcurrency :: int
  waitingTasks :: "'t list"
  runningTasks :: int
  results1 :: "'r list"
  allCompleted :: bool
  completion :: "'r list option"
  awaiting :: "'t list"
  started1 :: "'t list"
  submitted1 :: "'t list"
  succeeded1 :: "'t list"

definition AsyncTaskPool :: "int \<Rightarrow> pool1_error + ('t, 'r) pool1" where
  "AsyncTaskPool c =
     (if c < 1 then Inl InvalidConcurrency
      else Inr \<lparr>maxConcurrency = c, waitingTasks = [], runningTasks = 0, results1 = [],
                allCompleted = False, completion = None, awaiting = [], started1 = [],
                submitted1 = [], succeeded1 = []\<rparr>)"

text \<open>The loop test of \<open>runTasks\<close> and, when it holds, the body up to \<open>await task()\<close>.\<close>

definition runTasks :: "('t, 'r) pool1 \<Rightarrow> ('t, 'r) pool1" where
  "runTasks s =
     (if runningTasks s < maxConcurrency s \<and> waitingTasks s \<noteq> [] then
        s\<lparr>waitingTasks := tl (waitingTasks s),
          runningTasks := runningTasks s + 1,
          awaiting := awaiting s @ [hd (waitingTasks s)],
          started1 := started1 s @ [hd (waitingTasks s)]\<rparr>
      else s)"

definition checkAllCompleted :: "('t, 'r) pool1 \<Rightarrow> ('t, 'r) pool1" where
  "checkAllCompleted s =
     (if runningTasks s = 0 \<and> waitingTasks s = [] \<and> \<not> allCompleted s then
        s\<lparr>allCompleted := True, completion := Some (results1 s)\<rparr>
      else s)"

definition addTask :: "'t \<Rightarrow> ('t, 'r) pool1 \<Rightarrow> pool1_error + ('t, 'r) pool1" where
  "addTask task s =
     (if allCompleted s then Inl AllCompleted
      else Inr (runTasks (s\<lparr>waitingTasks := waitingTasks s @ [task],
                             submitted1 := submitted1 s @ [task]\<rparr>)))"

text \<open>
  The \<open>i\<close>-th suspended call of \<open>runTasks\<close> goes on after its task settled: \<open>try\<close> or
  \<open>catch\<close>, then \<open>finally\<close>, then the loop test again.
\<close>

definition resume :: "nat \<Rightarrow> 'r outcome \<Rightarrow> ('t, 'r) pool1 \<Rightarrow> ('t, 'r) pool1" where
  "resume i out s =
     (let s1 = (case out of
                  Fulfilled res \<Rightarrow>
                    s\<lparr>results1 := results1 s @ [res],
                      succeeded1 := succeeded1 s @ [awaiting s ! i]\<rparr>
                | Rejected \<Rightarrow> s\<lparr>waitingTasks := waitingTasks s @ [awaiting s ! i]\<rparr>);
          s2 = s1\<lparr>runningTasks := runningTasks s1 - 1,
                  awaiting := take i (awaiting s1) @ drop (Suc i) (awaiting s1)\<rparr>
      in runTasks (checkAllCompleted s2))"

definition waitForAll :: "('t, 'r) pool1 \<Rightarrow> 'r list option" where
  "waitForAll s = completion s"

datatype ('t, 'r) event1 = AddTask 't | TaskSettled nat "'r outcome"

fun apply_event1 :: "('t, 'r) pool1 \<Rightarrow> ('t, 'r) event1 \<Rightarrow> ('t, 'r) pool1" where
  "apply_event1 s (AddTask task) = (case addTask task s of Inl _ \<Rightarrow> s | Inr s' \<Rightarrow> s')"
| "apply_event1 s (TaskSettled i out) = (if i < length (awaiting s) then resume i out s else s)"

definition exec1 :: "('t, 'r) event1 list \<Rightarrow> ('t, 'r) pool1 \<Rightarrow> ('t, 'r) pool1" where
  "exec1 evs s = foldl apply_event1 s evs"

definition pool1_core :: "('t, 'r) pool1 \<Rightarrow> bool" where
  "pool1_core s \<longleftrightarrow>
     1 \<le> maxConcurrency s \<and>
     runningTasks s = int (length (awaiting s)) \<and>
     runningTasks s \<le> maxConcurrency s \<and>
     (allCompleted s \<longrightarrow> waitingTasks s = [] \<and> awaiting s = []) \<and>
     (allCompleted s \<longrightarrow> completion s = Some (results1 s)) \<and>
     (\<not> allCompleted s \<longrightarrow> completion s = None) \<and>
     mset (submitted1 s) = mset (waitingTasks s) + mset (awaiting s) + mset (succeeded1 s) \<and>
     length (succeeded1 s) = length (results1 s) \<and>
     (allCompleted s \<longrightarrow> submitted1 s \<noteq> [])"

definition pool1_inv :: "('t, 'r) pool1 \<Rightarrow> bool" where
  "pool1_inv s \<longleftrightarrow>
     pool1_core s \<and>
     (\<not> allCompleted s \<and> submitted1 s \<noteq> [] \<longrightarrow> runningTasks s \<noteq> 0 \<or> waitingTasks s \<noteq> [])"

section \<open>RequestPool\<close>

text \<open>
  \<^verbatim>\<open>src/unnamed/part_000\<close>. \<open>add(request)\<close> wraps the request in a closure \<open>task\<close> that
  captures the fresh \<open>taskId\<close> and the \<open>resolve\<close>/\<open>reject\<close> of the promise \<open>add\<close> returns;
  the model keeps such a closure as the pair of its \<open>taskId\<close> and request. Calling the
  closure counts it as active and calls \<open>request()\<close>; when that promise settles, the rest
  of the closure (resolve or reject, \<open>finally\<close>: count down, \<open>runNext\<close>) runs in one piece.
  A \<open>request\<close> that throws at once takes the same path, so it is \<open>add\<close> followed by a
  rejected settlement. \<open>inFlight\<close> holds the closures waiting for their request,
  \<open>promises\<close> the promises returned by \<open>add\<close> that are settled, under their \<open>taskId\<close>:
  \<open>Inr\<close> resolved with the result, \<open>Inl\<close> rejected with the error. \<open>requested\<close> is the
  log of the calls \<open>request()\<close>, by \<open>taskId\<close>, in the order they were made.
\<close>

record ('q, 'r, 'e) request_pool =
  maxConcurrent :: int
  activeCount :: int
  requestQueue :: "(nat \<times> 'q) list"
  taskCounter :: nat
  inFlight :: "(nat \<times> 'q) list"
  promises :: "(nat \<times> ('e + 'r)) list"
  requested :: "nat list"

definition RequestPool :: "int \<Rightarrow> ('q, 'r, 'e) request_pool" where
  "RequestPool c = \<lparr>maxConcurrent = c, activeCount = 0, requestQueue = [], taskCounter = 0,
     inFlight = [], promises = [], requested = []\<rparr>"

definition RequestPool_task ::
  "nat \<times> 'q \<Rightarrow> ('q, 'r, 'e) request_pool \<Rightarrow> ('q, 'r, 'e) request_pool" where
  "RequestPool_task task s =
     s\<lparr>activeCount := activeCount s + 1, inFlight := inFlight s @ [task],
       requested := requested s @ [fst task]\<rparr>"

definition RequestPool_add ::
  "'q \<Rightarrow> ('q, 'r, 'e) request_pool \<Rightarrow> nat \<times> ('q, 'r, 'e) request_pool" where
  "RequestPool_add request s =
     (let taskId = taskCounter s + 1;
          s1 = s\<lparr>taskCounter := taskId\<rparr>
      in (taskId,
          if activeCount s1 < maxConcurrent s1 then RequestPool_task (taskId, request) s1
          else s1\<lparr>requestQueue := requestQueue s1 @ [(taskId, request)]\<rparr>))"

definition RequestPool_runNext :: "('q, 'r, 'e) request_pool \<Rightarrow> ('q, 'r, 'e) request_pool" where
  "RequestPool_runNext s =
     (if requestQueue s \<noteq> [] \<and> activeCount s < maxConcurrent s then
        RequestPool_task (hd (requestQueue s)) (s\<lparr>requestQueue := tl (requestQueue s)\<rparr>)
      else s)"

definition RequestPool_settle ::
  "nat \<Rightarrow> 'e + 'r \<Rightarrow> ('q, 'r, 'e) request_pool \<Rightarrow> ('q, 'r, 'e) request_pool" where
  "RequestPool_settle i out s =
     RequestPool_runNext
       (s\<lparr>promises := promises s @ [(fst (inFlight s ! i), out)],
          activeCount := activeCount s - 1,
          inFlight := take i (inFlight s) @ drop (Suc i) (inFlight s)\<rparr>)"

datatype ('q, 'r, 'e) request_event = Request 'q | Settled nat "'e + 'r"

fun RequestPool_event ::
  "('q, 'r, 'e) request_pool \<Rightarrow> ('q, 'r, 'e) request_event \<Rightarrow> ('q, 'r, 'e) request_pool" where
  "RequestPool_event s (Request q) = snd (RequestPool_add q s)"
| "RequestPool_event s (Settled i out) =
     (if i < length (inFlight s) then RequestPool_settle i out s else s)"

definition RequestPool_exec ::
  "('q, 'r, 'e) request_event list \<Rightarrow> ('q, 'r, 'e) request_pool \<Rightarrow> ('q, 'r, 'e) request_pool" where
  "RequestPool_exec evs s = foldl RequestPool_event s evs"

definition request_pool_inv :: "('q, 'r, 'e) request_pool \<Rightarrow> bool" where
  "request_pool_inv s \<longleftrightarrow>
     activeCount s = int (length (inFlight s)) \<and> activeCount s \<le> max 0 (maxConcurrent s)"

text \<open>
  No \<open>taskId\<close> is called twice or called while its closure is still queued, every closure
  in flight has been called, and \<open>taskCounter\<close> is the greatest \<open>taskId\<close> given out.
\<close>

definition request_log_inv :: "('q, 'r, 'e) request_pool \<Rightarrow> bool" where
  "request_log_inv s \<longleftrightarrow>
     distinct (requested s @ map fst (requestQueue s)) \<and>
     fst ` set (inFlight s) \<subseteq> set (requested s) \<and>
     (\<forall>i \<in> set (requested s) \<union> fst ` set (requestQueue s). i \<le> taskCounter s)"

section \<open>retryWrapper\<close>

text \<open>
  \<^verbatim>\<open>src/unnamed/part_001\<close>, lines 172-189. \<open>fn\<close> is an effectful closure: \<open>fn k\<close> is what its
  \<open>k\<close>-th call (from 0) does, \<open>Inr\<close> a returned value, \<open>Inl\<close> a thrown error. The result is
  the number of calls made and what \<open>retryWrapper\<close> does: \<open>Inl\<close> throws, \<open>Inr (Some v)\<close>
  returns \<open>v\<close>, \<open>Inr None\<close> is the \<open>undefined\<close> of falling out of the loop. The wait of
  \<open>delay\<close> milliseconds before the next try changes no value.
\<close>

definition maxRetries :: nat where
  "maxRetries = 3"

function retryLoop :: "(nat \<Rightarrow> 'e + 'a) \<Rightarrow> nat \<Rightarrow> nat \<Rightarrow> nat \<times> ('e + 'a option)" where
  "retryLoop fn calls retries =
     (if retries < maxRetries then
        (case fn calls of
           Inr v \<Rightarrow> (Suc calls, Inr (Some v))
         | Inl err \<Rightarrow>
             if retries + 1 < maxRetries then retryLoop fn (Suc calls) (retries + 1)
             else (Suc calls, Inl err))
      else (calls, Inr None))"
  by pat_completeness auto
termination
  by (relation "measure (\<lambda>(fn, calls, retries). maxRetries - retries)") auto

declare retryLoop.simps [simp del]

definition retryWrapper :: "(nat \<Rightarrow> 'e + 'a) \<Rightarrow> nat \<times> ('e + 'a option)" where
  "retryWrapper fn = retryLoop fn 0 0"

section \<open>paralleTask\<close>














section \<open>runConcurrently\<close>

text \<open>
  \<^verbatim>\<open>src/RunConcurrently.ts\<close>. A task is called once, by \<open>runTask\<close>; the model takes a task
  to be the way the promise it returns settles: \<open>Inr\<close> fulfilled with a value, \<open>Inl\<close>
  rejected with a thrown value (a task that throws at once is caught by the same \<open>try\<close>).
  A thrown value is an \<open>Error\<close> object, or another value that \<open>String\<close> converts, or a
  value for which \<open>String(err)\<close> itself throws (an object without \<open>toString\<close> and
  \<open>valueOf\<close> such as \<open>Object.create(null)\<close>, or one whose \<open>toString\<close> throws):
  \<open>Unprintable u\<close>, where \<open>u\<close> is what the conversion throws.
\<close>

datatype ('e, 'v, 'u) thrown = ErrorObject 'e | OtherValue 'v | Unprintable 'u

text \<open>
  \<open>err instanceof Error ? err : new Error(String(err))\<close>: the \<open>Error\<close> stored, or what the
  conversion throws.
\<close>

datatype ('e, 'v) js_Error = Same 'e | NewError 'v

fun to_Error :: "('e, 'v, 'u) thrown \<Rightarrow> 'u + ('e, 'v) js_Error" where
  "to_Error (ErrorObject e) = Inr (Same e)"
| "to_Error (OtherValue v) = Inr (NewError v)"
| "to_Error (Unprintable u) = Inl u"

record ('a, 'e, 'v) TaskResult =
  success :: bool
  data :: "'a option"
  error :: "('e, 'v) js_Error option"

text \<open>What \<open>runConcurrently\<close> rejects with: its own error, or what a conversion threw.\<close>

datatype 'u rc_error = MaxConcurrentError | Thrown 'u

text \<open>
  Writing \<open>results[index] = v\<close> to a JavaScript array: beyond the end the array grows, and
  the elements in between are holes (\<open>None\<close>).
\<close>

definition js_set :: "'x option list \<Rightarrow> nat \<Rightarrow> 'x \<Rightarrow> 'x option list" where
  "js_set xs i v =
     (if i < length xs then xs[i := Some v]
      else xs @ replicate (i - length xs) None @ [Some v])"

text \<open>
  Each call of \<open>next\<close> is a chain that is suspended either in \<open>runTask(index)\<close> at
  \<open>await task()\<close>, or after \<open>runTask\<close> wrote its result, at \<open>await runTask(currentIndex)\<close>,
  about to call \<open>next\<close> again, or that is rejected, because \<open>runTask\<close> threw in its
  \<open>catch\<close> block, with the rejection on its way to \<open>Promise.all\<close>. \<open>workers\<close> holds the
  chains that have not ended, \<open>rc_called\<close> the indexes of the tasks in the order they were
  called, \<open>rejection\<close> what \<open>Promise.all\<close> was rejected with.
\<close>

datatype 'u worker = InTask nat | AfterTask | Rejecting 'u

record ('a, 'e, 'v, 'u) rc_state =
  taskIndex :: nat
  rc_results :: "('a, 'e, 'v) TaskResult option list"
  workers :: "'u worker list"
  rc_called :: "nat list"
  rejection :: "'u option"

text \<open>
  The rest of \<open>runTask(index)\<close> once \<open>task()\<close> has settled: the state with the result
  written, or what the \<open>catch\<close> block threw.
\<close>

definition runTask ::
  "(('e, 'v, 'u) thrown + 'a) list \<Rightarrow> nat \<Rightarrow> ('a, 'e, 'v, 'u) rc_state \<Rightarrow>
     'u + ('a, 'e, 'v, 'u) rc_state" where
  "runTask tasks index s =
     (case tasks ! index of
        Inr result \<Rightarrow>
          Inr (s\<lparr>rc_results := js_set (rc_results s) index
                 \<lparr>success = True, data = Some result, error = None\<rparr>\<rparr>)
      | Inl err \<Rightarrow>
          (case to_Error err of
             Inr e \<Rightarrow>
               Inr (s\<lparr>rc_results := js_set (rc_results s) index
                      \<lparr>success = False, data = None, error = Some e\<rparr>\<rparr>)
           | Inl u \<Rightarrow> Inl u))"

text \<open>
  A call of \<open>next\<close> up to its \<open>return\<close> or to the \<open>await\<close> inside \<open>runTask(currentIndex)\<close>,
  where the task has been called; \<open>runTask\<close> is only ever called with an index below
  \<open>tasks.length\<close>.
\<close>

definition onNext :: "nat \<Rightarrow> ('a, 'e, 'v, 'u) rc_state \<Rightarrow> ('a, 'e, 'v, 'u) rc_state" where
  "onNext n s =
     (let currentIndex = taskIndex s;
          s1 = s\<lparr>taskIndex := taskIndex s + 1\<rparr>
      in if currentIndex \<ge> n then s1
         else s1\<lparr>workers := workers s1 @ [InTask currentIndex],
                rc_called := rc_called s1 @ [currentIndex]\<rparr>)"

text \<open>
  The chain at position \<open>p\<close> of \<open>workers\<close> goes on. A rejection that arrives at
  \<open>Promise.all\<close> rejects it unless it is rejected already.
\<close>

definition rc_step ::
  "(('e, 'v, 'u) thrown + 'a) list \<Rightarrow> nat \<Rightarrow> ('a, 'e, 'v, 'u) rc_state \<Rightarrow>
     ('a, 'e, 'v, 'u) rc_state" where
  "rc_step tasks p s =
     (case workers s ! p of
        InTask index \<Rightarrow>
          (case runTask tasks index s of
             Inr s' \<Rightarrow> s'\<lparr>workers := (workers s)[p := AfterTask]\<rparr>
           | Inl u \<Rightarrow> s\<lparr>workers := (workers s)[p := Rejecting u]\<rparr>)
      | AfterTask \<Rightarrow>
          onNext (length tasks) (s\<lparr>workers := take p (workers s) @ drop (Suc p) (workers s)\<rparr>)
      | Rejecting u \<Rightarrow>
          s\<lparr>workers := take p (workers s) @ drop (Suc p) (workers s),
            rejection := (case rejection s of None \<Rightarrow> Some u | Some u' \<Rightarrow> Some u')\<rparr>)"

fun worker_weight :: "'u worker \<Rightarrow> nat" where
  "worker_weight (InTask i) = 2"
| "worker_weight AfterTask = 1"
| "worker_weight (Rejecting u) = 1"

definition rc_measure :: "nat \<Rightarrow> ('a, 'e, 'v, 'u) rc_state \<Rightarrow> nat" where
  "rc_measure n s = 2 * (n - taskIndex s) + sum_list (map worker_weight (workers s))"

text \<open>
  \<open>await Promise.all(initialTasks)\<close>: the chains go on, in any order, until one rejection
  has arrived or all have returned. The order is given by \<open>sched\<close>: each number picks one of
  the chains that have not ended (when the list is used up, the first one), so every order
  in which tasks can complete is the order of some \<open>sched\<close>.
\<close>

lemma rc_step_measure:
  fixes s :: "('a, 'e, 'v, 'u) rc_state"
  assumes "p < length (workers s)"
  shows "rc_measure (length tasks) (rc_step tasks p s) < rc_measure (length tasks) s"
proof -
  have upd: "sum_list (map worker_weight (ws[p := w])) + 1 = sum_list (map worker_weight ws)"
    if "p < length ws" "ws ! p = InTask i" "worker_weight w = 1" for ws :: "'u worker list" and i w
    using that
  proof (induction ws arbitrary: p)
    case Nil
    then show ?case by simp
  next
    case (Cons w ws)
    then show ?case by (cases p) auto
  qed
  have del: "sum_list (map worker_weight (take p ws @ drop (Suc p) ws)) + 1 =
             sum_list (map worker_weight ws)"
    if "p < length ws" "worker_weight (ws ! p) = 1" for ws :: "'u worker list"
  proof -
    have "ws = take p ws @ ws ! p # drop (Suc p) ws"
      using that(1) by (rule id_take_nth_drop)
    then have "sum_list (map worker_weight ws) =
               sum_list (map worker_weight (take p ws @ ws ! p # drop (Suc p) ws))"
      by simp
    then show ?thesis using that(2) by simp
  qed
  show ?thesis
  proof (cases "workers s ! p")
    case (InTask i)
    show ?thesis
    proof (cases "runTask tasks i s")
      case (Inl u)
      then show ?thesis
        using upd [OF assms InTask, of "Rejecting u"] InTask
        by (simp add: rc_step_def rc_measure_def)
    next
      case (Inr s')
      then have "taskIndex s' = taskIndex s"
        by (auto simp: runTask_def split: sum.splits)
      then show ?thesis
        using upd [OF assms InTask, of AfterTask] InTask Inr
        by (simp add: rc_step_def rc_measure_def)
    qed
  next
    case AfterTask
    then show ?thesis
      using del [OF assms] by (auto simp: rc_step_def rc_measure_def onNext_def Let_def)
  next
    case (Rejecting u)
    then show ?thesis
      using del [OF assms] by (auto simp: rc_step_def rc_measure_def)
  qed
qed

function rc_loop ::
  "(('e, 'v, 'u) thrown + 'a) list \<Rightarrow> nat list \<Rightarrow> ('a, 'e, 'v, 'u) rc_state \<Rightarrow>
     ('a, 'e, 'v, 'u) rc_state" where
  "rc_loop tasks sched s =
     (if rejection s \<noteq> None \<or> workers s = [] then s
      else (case sched of
              [] \<Rightarrow> rc_loop tasks [] (rc_step tasks 0 s)
            | c # cs \<Rightarrow> rc_loop tasks cs (rc_step tasks (c mod length (workers s)) s)))"
  by pat_completeness auto
termination
  by (relation "measure (\<lambda>(tasks, sched, s). rc_measure (length tasks) s)")
     (auto simp: rc_step_measure)

declare rc_loop.simps [simp del]

text \<open>
  The state when \<open>await Promise.all(initialTasks)\<close> goes on or throws, and what
  \<open>runConcurrently\<close> does then.
\<close>

definition rc_run ::
  "(('e, 'v, 'u) thrown + 'a) list \<Rightarrow> int \<Rightarrow> nat list \<Rightarrow> ('a, 'e, 'v, 'u) rc_state" where
  "rc_run tasks maxConc sched =
     rc_loop tasks sched
       ((onNext (length tasks) ^^ nat (min maxConc (int (length tasks))))
          \<lparr>taskIndex = 0, rc_results = [], workers = [], rc_called = [], rejection = None\<rparr>)"

definition runConcurrently ::
  "(('e, 'v, 'u) thrown + 'a) list \<Rightarrow> int \<Rightarrow> nat list \<Rightarrow>
     'u rc_error + ('a, 'e, 'v) TaskResult option list" where
  "runConcurrently tasks maxConc sched =
     (if maxConc < 1 then Inl MaxConcurrentError
      else (case rejection (rc_run tasks maxConc sched) of
              Some u \<Rightarrow> Inl (Thrown u)
            | None \<Rightarrow> Inr (rc_results (rc_run tasks maxConc sched))))"

text \<open>
  The entry that describes a task: \<open>None\<close> for a task that fails with a value that cannot
  be converted, for which there is no such entry.
\<close>

definition describe :: "('e, 'v, 'u) thrown + 'a \<Rightarrow> ('a, 'e, 'v) TaskResult option" where
  "describe t =
     (case t of
        Inr result \<Rightarrow> Some \<lparr>success = True, data = Some result, error = None\<rparr>
      | Inl err \<Rightarrow>
          (case to_Error err of
             Inr e \<Rightarrow> Some \<lparr>success = False, data = None, error = Some e\<rparr>
           | Inl u \<Rightarrow> None))"

definition convertible :: "('e, 'v, 'u) thrown + 'a \<Rightarrow> bool" where
  "convertible t \<longleftrightarrow> (case t of Inl (Unprintable u) \<Rightarrow> False | _ \<Rightarrow> True)"

text \<open>What holds of the state of \<open>runConcurrently\<close> while the chains run.\<close>

definition rc_base ::
  "(('e, 'v, 'u) thrown + 'a) list \<Rightarrow> ('a, 'e, 'v, 'u) rc_state \<Rightarrow> bool" where
  "rc_base tasks s \<longleftrightarrow>
     (\<forall>i. InTask i \<in> set (workers s) \<longrightarrow> i < taskIndex s \<and> i < length tasks) \<and>
     length (rc_results s) \<le> min (taskIndex s) (length tasks) \<and>
     (\<forall>i < length (rc_results s). InTask i \<notin> set (workers s) \<longrightarrow>
        rc_results s ! i = describe (tasks ! i)) \<and>
     (\<forall>i < min (taskIndex s) (length tasks). InTask i \<notin> set (workers s) \<longrightarrow>
        i < length (rc_results s))"

definition rc_live :: "nat \<Rightarrow> ('a, 'e, 'v, 'u) rc_state \<Rightarrow> bool" where
  "rc_live n s \<longleftrightarrow> (taskIndex s < n \<longrightarrow> workers s \<noteq> [])"

definition rc_clean :: "nat \<Rightarrow> ('a, 'e, 'v, 'u) rc_state \<Rightarrow> bool" where
  "rc_clean n s \<longleftrightarrow>
     rejection s = None \<and> (\<forall>u. Rejecting u \<notin> set (workers s)) \<and>
     rc_called s = [0..<min (taskIndex s) n]"

text \<open>
  \<open>rc_passed\<close>: the error of every task that was called and has settled could be
  converted. \<open>rc_pending\<close> holds in every state of a run: \<open>Promise.all\<close> is rejected, or a
  chain is rejected and the rejection is on its way, or no conversion has thrown so far.
\<close>

definition rc_passed ::
  "(('e, 'v, 'u) thrown + 'a) list \<Rightarrow> ('a, 'e, 'v, 'u) rc_state \<Rightarrow> bool" where
  "rc_passed tasks s \<longleftrightarrow>
     (\<forall>i. InTask i \<in> set (workers s) \<longrightarrow> i < length tasks) \<and>
     (\<forall>i < min (taskIndex s) (length tasks). InTask i \<notin> set (workers s) \<longrightarrow>
        convertible (tasks ! i))"

definition rc_pending ::
  "(('e, 'v, 'u) thrown + 'a) list \<Rightarrow> ('a, 'e, 'v, 'u) rc_state \<Rightarrow> bool" where
  "rc_pending tasks s \<longleftrightarrow>
     rejection s \<noteq> None \<or> (\<exists>u. Rejecting u \<in> set (workers s)) \<or>
     rc_live (length tasks) s \<and> rc_passed tasks s"

section \<open>executeTasks, runTasks, retryFailedTasks\<close>

text \<open>
  \<^verbatim>\<open>src/unnamed/part_001\<close>, lines 1-153. A JavaScript \<open>Map\<close> keeps its entries in the
  order the keys were first set, and \<open>set\<close> on a key that is present replaces its value in
  place: association lists with \<open>Map_set\<close>. \<open>taskIndices\<close> has the task closures as keys,
  compared by identity; a task is a value of type \<open>'t\<close> and two tasks are equal when they
  are the same closure. \<open>outcome p\<close> is how the call of the task at position \<open>p\<close> of the
  array settles. All tasks are called at once; their callbacks go on in the order in which
  the calls settle, which \<open>sched\<close> picks as for \<open>runConcurrently\<close>. \<open>executor_runTasks\<close>
  is the function \<open>runTasks\<close> of this file.
\<close>

fun Map_set :: "'k \<Rightarrow> 'x \<Rightarrow> ('k \<times> 'x) list \<Rightarrow> ('k \<times> 'x) list" where
  "Map_set k v [] = [(k, v)]"
| "Map_set k v ((k', v') # m) = (if k' = k then (k, v) # m else (k', v') # Map_set k v m)"

definition Map_get :: "('k \<times> 'x) list \<Rightarrow> 'k \<Rightarrow> 'x option" where
  "Map_get m k = map_of m k"

definition Map_new :: "('k \<times> 'x) list \<Rightarrow> ('k \<times> 'x) list" where
  "Map_new entries = fold (\<lambda>(k, v). Map_set k v) entries []"

record ('t, 'r) TaskExecutorState =
  successResults :: "(nat \<times> 'r) list"
  failedTasks :: "(nat \<times> 't) list"

record ('r, 'e, 'v) IndexedTaskResult =
  tr_success :: bool
  tr_index :: nat
  tr_result :: "'r option"
  tr_error :: "('e, 'v) js_Error option"

definition createTaskState :: "('t, 'r) TaskExecutorState" where
  "createTaskState = \<lparr>successResults = [], failedTasks = []\<rparr>"

definition originalIndex :: "('t \<times> nat) list \<Rightarrow> 't \<Rightarrow> nat \<Rightarrow> nat" where
  "originalIndex taskIndices task currentIndex =
     (case Map_get taskIndices task of Some i \<Rightarrow> i | None \<Rightarrow> currentIndex)"

text \<open>
  The callback of \<open>tasks.map\<close> for the task at \<open>currentIndex\<close>: what it does to the state
  once the task has settled, and the value it returns, or what it throws when the
  conversion of the error throws (after the failed task was stored).
\<close>

definition task_settled ::
  "'t list \<Rightarrow> ('t \<times> nat) list \<Rightarrow> (nat \<Rightarrow> ('e, 'v, 'u) thrown + 'r) \<Rightarrow> nat \<Rightarrow>
     ('t, 'r) TaskExecutorState \<Rightarrow> ('t, 'r) TaskExecutorState" where
  "task_settled tasks taskIndices outcome currentIndex state =
     (case outcome currentIndex of
        Inr result \<Rightarrow>
          state\<lparr>successResults :=
            Map_set (originalIndex taskIndices (tasks ! currentIndex) currentIndex) result
              (successResults state)\<rparr>
      | Inl err \<Rightarrow>
          state\<lparr>failedTasks :=
            Map_set (originalIndex taskIndices (tasks ! currentIndex) currentIndex)
              (tasks ! currentIndex) (failedTasks state)\<rparr>)"

definition task_returned ::
  "'t list \<Rightarrow> ('t \<times> nat) list \<Rightarrow> (nat \<Rightarrow> ('e, 'v, 'u) thrown + 'r) \<Rightarrow> nat \<Rightarrow>
     'u + ('r, 'e, 'v) IndexedTaskResult" where
  "task_returned tasks taskIndices outcome currentIndex =
     (case outcome currentIndex of
        Inr result \<Rightarrow>
          Inr \<lparr>tr_success = True,
               tr_index = originalIndex taskIndices (tasks ! currentIndex) currentIndex,
               tr_result = Some result, tr_error = None\<rparr>
      | Inl err \<Rightarrow>
          (case to_Error err of
             Inr e \<Rightarrow>
               Inr \<lparr>tr_success = False,
                    tr_index = originalIndex taskIndices (tasks ! currentIndex) currentIndex,
                    tr_result = None, tr_error = Some e\<rparr>
           | Inl u \<Rightarrow> Inl u))"

text \<open>The order in which the pending calls settle.\<close>

fun completion_order :: "nat list \<Rightarrow> nat list \<Rightarrow> nat list" where
  "completion_order sched [] = []"
| "completion_order [] pending = pending"
| "completion_order (c # cs) pending =
     (pending ! (c mod length pending)) #
       completion_order cs (remove1 (pending ! (c mod length pending)) pending)"

text \<open>
  \<open>Promise.all(promises)\<close>: rejected with what the first callback to throw threw, or
  else fulfilled with the values the callbacks returned, in the order of the array.
\<close>

fun first_thrown :: "('u + 'x) list \<Rightarrow> 'u option" where
  "first_thrown [] = None"
| "first_thrown (Inl u # rs) = Some u"
| "first_thrown (Inr x # rs) = first_thrown rs"

fun returned_values :: "('u + 'x) list \<Rightarrow> 'x list" where
  "returned_values [] = []"
| "returned_values (Inl u # rs) = returned_values rs"
| "returned_values (Inr x # rs) = x # returned_values rs"

definition Promise_all :: "nat list \<Rightarrow> ('u + 'x) list \<Rightarrow> 'u + 'x list" where
  "Promise_all order rs =
     (case first_thrown (map ((!) rs) order) of
        Some u \<Rightarrow> Inl u
      | None \<Rightarrow> Inr (returned_values rs))"

text \<open>
  \<open>executeTasks\<close> gives what the promise it returns settles with, and the state object,
  which the caller holds whether the promise is rejected or not, after all callbacks.
\<close>

definition executeTasks ::
  "'t list \<Rightarrow> ('t, 'r) TaskExecutorState \<Rightarrow> ('t \<times> nat) list \<Rightarrow>
     (nat \<Rightarrow> ('e, 'v, 'u) thrown + 'r) \<Rightarrow> nat list \<Rightarrow>
     ('u + ('r, 'e, 'v) IndexedTaskResult list) \<times> ('t, 'r) TaskExecutorState" where
  "executeTasks tasks state taskIndices outcome sched =
     (Promise_all (completion_order sched [0..<length tasks])
        (map (task_returned tasks taskIndices outcome) [0..<length tasks]),
      fold (task_settled tasks taskIndices outcome)
        (completion_order sched [0..<length tasks]) state)"

definition executor_runTasks ::
  "'t list \<Rightarrow> (nat \<Rightarrow> ('e, 'v, 'u) thrown + 'r) \<Rightarrow> nat list \<Rightarrow>
     'u + ('r, 'e, 'v) IndexedTaskResult list \<times> ('t, 'r) TaskExecutorState" where
  "executor_runTasks tasks outcome sched =
     (case executeTasks tasks createTaskState [] outcome sched of
        (Inl u, state) \<Rightarrow> Inl u
      | (Inr rs, state) \<Rightarrow> Inr (rs, state))"

definition retryFailedTasks ::
  "('t, 'r) TaskExecutorState \<Rightarrow> (nat \<Rightarrow> ('e, 'v, 'u) thrown + 'r) \<Rightarrow> nat list \<Rightarrow>
     ('u + ('r, 'e, 'v) IndexedTaskResult list) \<times> ('t, 'r) TaskExecutorState" where
  "retryFailedTasks state outcome sched =
     (let failedTasksArray = failedTasks state;
          taskIndices = Map_new (map (\<lambda>(index, task). (task, index)) failedTasksArray)
      in executeTasks (map snd failedTasksArray) (state\<lparr>failedTasks := []\<rparr>)
           taskIndices outcome sched)"

text \<open>The indexes under which a state holds a result or a failed task.\<close>

definition recorded :: "('t, 'r) TaskExecutorState \<Rightarrow> nat set" where
  "recorded state = fst ` set (successResults state) \<union> fst ` set (failedTasks state)"

section \<open>Proofs: lists\<close>

lemma in_set_update_other: "x \<in> set ws \<Longrightarrow> x \<noteq> ws ! p \<Longrightarrow> x \<in> set (ws[p := y])"
proof -
  assume x: "x \<in> set ws" and ne: "x \<noteq> ws ! p"
  from x obtain q where q: "q < length ws" "ws ! q = x" by (auto simp: in_set_conv_nth)
  with ne have "q \<noteq> p" by auto
  then have "ws[p := y] ! q = x" using q by simp
  then show ?thesis using q(1) by (metis length_list_update nth_mem)
qed

lemma in_set_remove_other:
  assumes "x \<in> set ws" "x \<noteq> ws ! p" "p < length ws"
  shows "x \<in> set (take p ws @ drop (Suc p) ws)"
proof -
  have "ws = take p ws @ ws ! p # drop (Suc p) ws"
    using assms(3) by (rule id_take_nth_drop)
  then have "set ws = set (take p ws) \<union> {ws ! p} \<union> set (drop (Suc p) ws)"
    by (metis set_append list.simps(15) Un_insert_right Un_insert_left sup_bot.left_neutral Un_commute)
  then show ?thesis using assms(1,2) by auto
qed

lemma set_remove_subset: "set (take p ws @ drop (Suc p) ws) \<subseteq> set ws"
  by (auto dest: in_set_takeD in_set_dropD)

section \<open>Proofs: AsyncTaskPool (add / runNext)\<close>

lemma runNext_stop: "\<not> (runningCount s < concurrency s \<and> taskQueue s \<noteq> []) \<Longrightarrow> runNext s = s"
  by (subst runNext.simps) auto

lemma runNext_closed:
  "runNext s =
     (let k = min (nat (concurrency s - runningCount s)) (length (taskQueue s)) in
      s\<lparr>taskQueue := drop k (taskQueue s),
        runningCount := runningCount s + int k,
        chains := chains s @ map (\<lambda>t. (t, Pending)) (take k (taskQueue s)),
        started := started s @ take k (taskQueue s)\<rparr>)"
proof (induction s rule: runNext.induct)
  case (1 s)
  show ?case
  proof (cases "runningCount s < concurrency s \<and> taskQueue s \<noteq> []")
    case False
    then have "min (nat (concurrency s - runningCount s)) (length (taskQueue s)) = 0"
      by auto
    with False show ?thesis by (simp add: runNext_stop)
  next
    case True
    then obtain t q where q: "taskQueue s = t # q" by (cases "taskQueue s") auto
    define k where "k = min (nat (concurrency s - (runningCount s + 1))) (length q)"
    have k: "min (nat (concurrency s - runningCount s)) (Suc (length q)) = Suc k"
      using True q by (auto simp: k_def min_def)
    show ?thesis
      apply (subst runNext.simps)
      using True apply (simp only: if_True)
      apply (subst 1)
       apply (rule True)
      apply (simp add: q Let_def k k_def [symmetric])
      done
  qed
qed

lemma pending_tasks_append [simp]:
  "pending_tasks (xs @ ys) = pending_tasks xs @ pending_tasks ys"
  by (simp add: pending_tasks_def)

lemma pending_tasks_started [simp]:
  "pending_tasks (map (\<lambda>t. (t, Pending)) ts) = ts"
  by (induction ts) (simp_all add: pending_tasks_def)

lemma pending_tasks_handle:
  "i < length cs \<Longrightarrow> snd (cs ! i) = Pending \<Longrightarrow>
   mset (pending_tasks cs) = add_mset (fst (cs ! i)) (mset (pending_tasks (cs[i := (t, Handled)])))"
proof (induction cs arbitrary: i)
  case Nil
  then show ?case by simp
next
  case (Cons c cs)
  then show ?case
    by (cases i) (auto simp: pending_tasks_def)
qed

lemma pending_tasks_remove:
  "i < length cs \<Longrightarrow> snd (cs ! i) = Handled \<Longrightarrow>
   pending_tasks (take i cs @ drop (Suc i) cs) = pending_tasks cs"
proof -
  assume i: "i < length cs" and h: "snd (cs ! i) = Handled"
  have "cs = take i cs @ cs ! i # drop (Suc i) cs"
    using i by (rule id_take_nth_drop)
  then have "pending_tasks cs = pending_tasks (take i cs) @ pending_tasks (cs ! i # drop (Suc i) cs)"
    by (metis pending_tasks_append)
  also have "pending_tasks (cs ! i # drop (Suc i) cs) = pending_tasks (drop (Suc i) cs)"
    using h by (simp add: pending_tasks_def)
  finally show ?thesis by simp
qed

lemma mset_take_drop: "mset (take k xs) + mset (drop k xs) = mset xs"
  by (metis append_take_drop_id mset_append)

lemma mset_drop_take: "mset (drop k xs) + mset (take k xs) = mset xs"
  using mset_take_drop [of k xs] by (simp only: add.commute)

lemma pool_inv_init: "pool_inv (init c)"
  by (simp add: pool_inv_def init_def pending_tasks_def)

lemma pool_inv_runNext:
  assumes "pool_inv s" "\<not> finished s"
  shows "pool_inv (runNext s)"
  using assms
  by (auto simp: pool_inv_def runNext_closed Let_def mset_take_drop mset_drop_take)

lemma pool_inv_add:
  assumes "pool_inv s" "add task s = Inr s'"
  shows "pool_inv s'"
proof -
  from assms(2) have nf: "\<not> finished s"
    and s': "s' = runNext (s\<lparr>taskQueue := taskQueue s @ [task], submitted := submitted s @ [task]\<rparr>)"
    by (auto simp: add_def split: if_splits)
  have "pool_inv (s\<lparr>taskQueue := taskQueue s @ [task], submitted := submitted s @ [task]\<rparr>)"
    using assms(1) nf by (auto simp: pool_inv_def)
  then show ?thesis
    unfolding s' using nf by (intro pool_inv_runNext) simp_all
qed

lemma pool_inv_settle:
  assumes "pool_inv s" "i < length (chains s)" "snd (chains s ! i) = Pending"
  shows "pool_inv (settle i out s)"
proof -
  have nf: "\<not> finished s" using assms by (auto simp: pool_inv_def)
  show ?thesis
    using assms nf pending_tasks_handle [OF assms(2,3), of "fst (chains s ! i)"]
    by (cases out) (auto simp: pool_inv_def settle_def)
qed

lemma pool_inv_checkIfDone:
  assumes "pool_inv s" "\<not> finished s" "submitted s \<noteq> []"
  shows "pool_inv (checkIfDone s)"
  using assms by (auto simp: pool_inv_def checkIfDone_def)

lemma pool_inv_onFinally:
  assumes "pool_inv s" "i < length (chains s)" "snd (chains s ! i) = Handled"
  shows "pool_inv (onFinally i s)"
proof -
  have nf: "\<not> finished s" using assms by (auto simp: pool_inv_def)
  let ?s1 = "s\<lparr>runningCount := runningCount s - 1,
                 chains := take i (chains s) @ drop (Suc i) (chains s)\<rparr>"
  have "pool_inv ?s1"
    using assms nf pending_tasks_remove [OF assms(2,3)]
    by (auto simp: pool_inv_def)
  then have "pool_inv (runNext ?s1)"
    using nf by (intro pool_inv_runNext) simp_all
  moreover have "\<not> finished (runNext ?s1)"
    using nf by (simp add: runNext_closed Let_def)
  moreover have "submitted (runNext ?s1) \<noteq> []"
    using assms by (auto simp: runNext_closed Let_def pool_inv_def)
  ultimately show ?thesis
    unfolding onFinally_def by (rule pool_inv_checkIfDone)
qed

lemma pool_inv_awaitAll: "pool_inv s \<Longrightarrow> pool_inv (snd (awaitAll w s))"
  by (auto simp: pool_inv_def awaitAll_def)

lemma pool_inv_apply_event: "pool_inv s \<Longrightarrow> pool_inv (apply_event s e)"
  by (cases e) (auto simp: pool_inv_add pool_inv_settle pool_inv_onFinally pool_inv_awaitAll
      split: sum.splits)

lemma pool_inv_exec: "pool_inv s \<Longrightarrow> pool_inv (exec evs s)"
  unfolding exec_def by (induction evs arbitrary: s) (simp_all add: pool_inv_apply_event)

lemma pool_inv_reachable: "pool_inv (exec evs (init c))"
  by (simp add: pool_inv_exec pool_inv_init)


lemma busy_inv_apply_event:
  assumes "pool_inv s" "busy_inv s"
  shows "busy_inv (apply_event s e)"
proof (cases e)
  case (Add task)
  then show ?thesis
    using assms by (auto simp: busy_inv_def add_def runNext_closed Let_def pool_inv_def)
next
  case (Settle i out)
  then show ?thesis
    using assms by (cases out) (auto simp: busy_inv_def settle_def pool_inv_def)
next
  case (Finally i)
  then show ?thesis
    using assms by (auto simp: busy_inv_def onFinally_def checkIfDone_def runNext_closed Let_def)
next
  case (AwaitAll w)
  then show ?thesis
    using assms by (auto simp: busy_inv_def awaitAll_def)
qed

lemma busy_inv_exec: "pool_inv s \<Longrightarrow> busy_inv s \<Longrightarrow> busy_inv (exec evs s)"
  unfolding exec_def
  by (induction evs arbitrary: s) (simp_all add: busy_inv_apply_event pool_inv_apply_event)

lemma busy_inv_reachable: "busy_inv (exec evs (init c))"
  by (rule busy_inv_exec) (simp_all add: pool_inv_init, simp add: busy_inv_def init_def)

lemma finished_frozen: "pool_inv s \<Longrightarrow> finished s \<Longrightarrow> apply_event s e = s"
  by (cases e) (auto simp: pool_inv_def add_def awaitAll_def)

lemma finished_frozen_exec: "pool_inv s \<Longrightarrow> finished s \<Longrightarrow> exec evs s = s"
  unfolding exec_def by (induction evs) (simp_all add: finished_frozen)


lemma concurrency_runNext [simp]: "concurrency (runNext s) = concurrency s"
  by (simp add: runNext_closed Let_def)

lemma concurrency_event [simp]: "concurrency (apply_event s e) = concurrency s"
  by (cases e)
    (auto simp: add_def settle_def onFinally_def checkIfDone_def awaitAll_def
      split: outcome.splits)

lemma concurrency_exec [simp]: "concurrency (exec evs s) = concurrency s"
  unfolding exec_def by (induction evs arbitrary: s) simp_all




lemma exec_append: "exec (xs @ ys) s = exec ys (exec xs s)"
  by (simp add: exec_def)

lemma failing_round:
  "exec [Settle 0 Rejected, Finally 0]
     \<lparr>concurrency = 1, runningCount = 1, taskQueue = [], results = [],
       finished = False, pendingResolvers = [], chains = [(t, Pending)],
       started = ts, submitted = [t], succeeded = [], resolved = []\<rparr> =
     \<lparr>concurrency = 1, runningCount = 1, taskQueue = [], results = ([] :: 'r list),
       finished = False, pendingResolvers = [], chains = [(t, Pending)],
       started = ts @ [t], submitted = [t], succeeded = [], resolved = []\<rparr>"
  by (simp add: exec_def settle_def onFinally_def checkIfDone_def runNext_closed)

lemma failing_rounds_state:
  "exec (Add t # failing_rounds n) (init 1 :: ('t, 'r) pool) =
     \<lparr>concurrency = 1, runningCount = 1, taskQueue = [], results = [],
       finished = False, pendingResolvers = [], chains = [(t, Pending)],
       started = replicate (Suc n) t, submitted = [t], succeeded = [], resolved = []\<rparr>"
proof (induction n)
  case 0
  then show ?case by (simp add: exec_def add_def init_def runNext_closed)
next
  case (Suc n)
  have "exec (Add t # failing_rounds (Suc n)) (init 1 :: ('t, 'r) pool) =
        exec [Settle 0 Rejected, Finally 0] (exec (Add t # failing_rounds n) (init 1))"
    using exec_append [of "Add t # failing_rounds n" "[Settle 0 Rejected, Finally 0]"] by simp
  also have "\<dots> = \<lparr>concurrency = 1, runningCount = 1, taskQueue = [], results = [],
       finished = False, pendingResolvers = [], chains = [(t, Pending)],
       started = replicate (Suc n) t @ [t], submitted = [t], succeeded = [], resolved = []\<rparr>"
    unfolding Suc by (rule failing_round)
  finally show ?case by (simp add: replicate_append_same)
qed

lemma waiter_inv_event:
  assumes "pool_inv s" "waiter_inv w s"
  shows "waiter_inv w (apply_event s e)"
proof (cases "finished s")
  case True
  then show ?thesis using assms by (simp add: finished_frozen)
next
  case False
  show ?thesis
  proof (cases e)
    case (Add task)
    then show ?thesis using assms False by (simp add: waiter_inv_def add_def runNext_closed Let_def)
  next
    case (Settle i out)
    then show ?thesis using assms False by (cases out) (simp_all add: waiter_inv_def settle_def)
  next
    case (Finally i)
    then show ?thesis using assms False
      by (auto simp: waiter_inv_def onFinally_def checkIfDone_def runNext_closed Let_def)
  next
    case (AwaitAll v)
    then show ?thesis using assms False by (simp add: waiter_inv_def awaitAll_def)
  qed
qed

lemma waiter_inv_exec: "pool_inv s \<Longrightarrow> waiter_inv w s \<Longrightarrow> waiter_inv w (exec evs s)"
  unfolding exec_def
  by (induction evs arbitrary: s) (simp_all add: waiter_inv_event pool_inv_apply_event)



lemma pool_facts:
  assumes "s = exec evs (init c)"
  shows "pool_inv s" "busy_inv s"
  using assms by (simp_all add: pool_inv_reachable busy_inv_reachable)

lemma finished_iff:
  assumes "s = exec evs (init c)"
  shows "finished s \<longleftrightarrow> runningCount s = 0 \<and> taskQueue s = [] \<and> submitted s \<noteq> []"
  using pool_facts [OF assms] by (auto simp: pool_inv_def busy_inv_def)

lemma drained_example:
  "exec [Add ''A'', Settle 0 (Fulfilled ''a''), Finally 0] (init 3) =
     \<lparr>concurrency = 3, runningCount = 0, taskQueue = [], results = [''a''],
       finished = True, pendingResolvers = [], chains = [], started = [''A''],
       submitted = [''A''], succeeded = [''A''], resolved = []\<rparr>"
  by (simp add: exec_def add_def init_def runNext.simps settle_def onFinally_def checkIfDone_def)

lemma busy_example:
  "exec [AwaitAll 4, Add ''A'', Add ''B''] (init 1) =
     \<lparr>concurrency = 1, runningCount = 1, taskQueue = [''B''], results = [],
       finished = False, pendingResolvers = [4], chains = [(''A'', Pending)], started = [''A''],
       submitted = [''A'', ''B''], succeeded = [], resolved = []\<rparr>"
  by (simp add: exec_def add_def init_def awaitAll_def runNext_closed)



lemma finished_runNext [simp]: "finished (runNext s) = finished s"
  by (simp add: runNext_closed Let_def)

lemma submitted_runNext [simp]: "submitted (runNext s) = submitted s"
  by (simp add: runNext_closed Let_def)




section \<open>Proofs: AsyncTaskPool (addTask / runTasks)\<close>

lemma pool1_inv_init: "AsyncTaskPool c = Inr s \<Longrightarrow> pool1_inv s"
  by (auto simp: AsyncTaskPool_def pool1_inv_def pool1_core_def split: if_splits)

lemma mset_remove_nth:
  "i < length xs \<Longrightarrow> add_mset (xs ! i) (mset (take i xs @ drop (Suc i) xs)) = mset xs"
proof -
  assume "i < length xs"
  then have "xs = take i xs @ xs ! i # drop (Suc i) xs" by (rule id_take_nth_drop)
  then have "mset xs = mset (take i xs @ xs ! i # drop (Suc i) xs)" by simp
  then show ?thesis by simp
qed

lemma resume_Fulfilled:
  "resume i (Fulfilled res) s =
     runTasks (checkAllCompleted
       (s\<lparr>results1 := results1 s @ [res],
          succeeded1 := succeeded1 s @ [awaiting s ! i],
          runningTasks := runningTasks s - 1,
          awaiting := take i (awaiting s) @ drop (Suc i) (awaiting s)\<rparr>))"
  by (simp add: resume_def Let_def)

lemma resume_Rejected:
  "resume i Rejected s =
     runTasks (checkAllCompleted
       (s\<lparr>waitingTasks := waitingTasks s @ [awaiting s ! i],
          runningTasks := runningTasks s - 1,
          awaiting := take i (awaiting s) @ drop (Suc i) (awaiting s)\<rparr>))"
  by (simp add: resume_def Let_def)

lemma pool1_core_runTasks: "pool1_core s \<Longrightarrow> pool1_core (runTasks s)"
  by (cases "waitingTasks s") (auto simp: pool1_core_def runTasks_def)

lemma pool1_core_checkAllCompleted:
  "pool1_core s \<Longrightarrow> submitted1 s \<noteq> [] \<Longrightarrow> pool1_core (checkAllCompleted s)"
  by (auto simp: pool1_core_def checkAllCompleted_def)

lemma submitted1_runTasks [simp]: "submitted1 (runTasks s) = submitted1 s"
  by (simp add: runTasks_def)

lemma submitted1_checkAllCompleted [simp]: "submitted1 (checkAllCompleted s) = submitted1 s"
  by (simp add: checkAllCompleted_def)

lemma busy_after_resume:
  assumes "1 \<le> maxConcurrency s" "0 \<le> runningTasks s"
  shows "\<not> allCompleted (runTasks (checkAllCompleted s)) \<Longrightarrow>
         runningTasks (runTasks (checkAllCompleted s)) \<noteq> 0 \<or>
         waitingTasks (runTasks (checkAllCompleted s)) \<noteq> []"
  using assms by (auto simp: runTasks_def checkAllCompleted_def split: if_splits)

lemma pool1_inv_stage:
  assumes "pool1_core s2" "submitted1 s2 \<noteq> []"
  shows "pool1_inv (runTasks (checkAllCompleted s2))"
proof -
  have "pool1_core (runTasks (checkAllCompleted s2))"
    using assms by (intro pool1_core_runTasks pool1_core_checkAllCompleted)
  moreover have "1 \<le> maxConcurrency s2" "0 \<le> runningTasks s2"
    using assms(1) by (simp_all add: pool1_core_def)
  ultimately show ?thesis
    unfolding pool1_inv_def using busy_after_resume [of s2] by blast
qed

lemma pool1_inv_addTask:
  assumes "pool1_inv s" "addTask task s = Inr s'"
  shows "pool1_inv s'"
proof -
  from assms(2) have nf: "\<not> allCompleted s"
    and s': "s' = runTasks (s\<lparr>waitingTasks := waitingTasks s @ [task], submitted1 := submitted1 s @ [task]\<rparr>)"
    by (auto simp: addTask_def split: if_splits)
  have "pool1_core (s\<lparr>waitingTasks := waitingTasks s @ [task], submitted1 := submitted1 s @ [task]\<rparr>)"
    using assms(1) nf by (auto simp: pool1_inv_def pool1_core_def)
  then have "pool1_core s'" unfolding s' by (rule pool1_core_runTasks)
  moreover have "runningTasks s' \<noteq> 0 \<or> waitingTasks s' \<noteq> []"
    using assms(1) unfolding s' by (cases "waitingTasks s") (auto simp: runTasks_def pool1_inv_def pool1_core_def)
  ultimately show ?thesis by (simp add: pool1_inv_def)
qed

lemma pool1_inv_resume:
  assumes "pool1_inv s" "i < length (awaiting s)"
  shows "pool1_inv (resume i out s)"
proof -
  have core: "pool1_core s" using assms(1) by (simp add: pool1_inv_def)
  have nf: "\<not> allCompleted s" using core assms(2) by (auto simp: pool1_core_def)
  have sub: "submitted1 s \<noteq> []" using core assms(2) by (auto simp: pool1_core_def)
  note m = mset_remove_nth [OF assms(2), symmetric]
  show ?thesis
  proof (cases out)
    case (Fulfilled res)
    have "pool1_core (s\<lparr>results1 := results1 s @ [res],
          succeeded1 := succeeded1 s @ [awaiting s ! i],
          runningTasks := runningTasks s - 1,
          awaiting := take i (awaiting s) @ drop (Suc i) (awaiting s)\<rparr>)"
      using core nf m assms(2) by (auto simp: pool1_core_def)
    then show ?thesis
      unfolding Fulfilled resume_Fulfilled using sub by (intro pool1_inv_stage) simp_all
  next
    case Rejected
    have "pool1_core (s\<lparr>waitingTasks := waitingTasks s @ [awaiting s ! i],
          runningTasks := runningTasks s - 1,
          awaiting := take i (awaiting s) @ drop (Suc i) (awaiting s)\<rparr>)"
      using core nf m assms(2) by (auto simp: pool1_core_def)
    then show ?thesis
      unfolding Rejected resume_Rejected using sub by (intro pool1_inv_stage) simp_all
  qed
qed

lemma pool1_inv_event: "pool1_inv s \<Longrightarrow> pool1_inv (apply_event1 s e)"
  by (cases e) (auto simp: pool1_inv_addTask pool1_inv_resume split: sum.splits)

lemma pool1_inv_exec: "pool1_inv s \<Longrightarrow> pool1_inv (exec1 evs s)"
  unfolding exec1_def by (induction evs arbitrary: s) (simp_all add: pool1_inv_event)

lemma allCompleted_frozen: "pool1_inv s \<Longrightarrow> allCompleted s \<Longrightarrow> apply_event1 s e = s"
  by (cases e) (auto simp: pool1_inv_def pool1_core_def addTask_def)

lemma allCompleted_frozen_exec: "pool1_inv s \<Longrightarrow> allCompleted s \<Longrightarrow> exec1 evs s = s"
  unfolding exec1_def by (induction evs) (simp_all add: allCompleted_frozen)

lemma pool1_facts:
  assumes "AsyncTaskPool c1 = Inr s0" "s1 = exec1 evs1 s0"
  shows "pool1_inv s1"
  using assms by (simp add: pool1_inv_exec pool1_inv_init)

lemma pool1_example:
  "AsyncTaskPool 2 =
     Inr \<lparr>maxConcurrency = 2, waitingTasks = [], runningTasks = 0, results1 = [],
          allCompleted = False, completion = None, awaiting = [], started1 = [],
          submitted1 = [], succeeded1 = []\<rparr>"
  by (simp add: AsyncTaskPool_def)

lemma pool1_drained_example:
  "exec1 [AddTask ''A'', TaskSettled 0 (Fulfilled ''a'')]
     \<lparr>maxConcurrency = 2, waitingTasks = [], runningTasks = 0, results1 = [],
       allCompleted = False, completion = None, awaiting = [], started1 = [],
       submitted1 = [], succeeded1 = []\<rparr> =
     \<lparr>maxConcurrency = 2, waitingTasks = [], runningTasks = 0, results1 = [''a''],
       allCompleted = True, completion = Some [''a''], awaiting = [], started1 = [''A''],
       submitted1 = [''A''], succeeded1 = [''A'']\<rparr>"
  by (simp add: exec1_def addTask_def runTasks_def resume_def checkAllCompleted_def)

lemma allCompleted_iff:
  assumes "AsyncTaskPool c1 = Inr s0" "s1 = exec1 evs1 s0"
  shows "allCompleted s1 \<longleftrightarrow> runningTasks s1 = 0 \<and> waitingTasks s1 = [] \<and> submitted1 s1 \<noteq> []"
  using pool1_facts [OF assms] by (auto simp: pool1_inv_def pool1_core_def)

lemma maxConcurrency_event [simp]: "maxConcurrency (apply_event1 s e) = maxConcurrency s"
  by (cases e)
    (auto simp: addTask_def runTasks_def resume_def checkAllCompleted_def Let_def
      split: outcome.splits)

lemma maxConcurrency_exec [simp]: "maxConcurrency (exec1 evs s) = maxConcurrency s"
  unfolding exec1_def by (induction evs arbitrary: s) simp_all








lemma allCompleted_runTasks [simp]: "allCompleted (runTasks s) = allCompleted s"
  by (simp add: runTasks_def)






section \<open>Proofs: RequestPool\<close>

lemma request_pool_inv_init: "request_pool_inv (RequestPool c)"
  by (simp add: request_pool_inv_def RequestPool_def)

lemma request_pool_inv_event:
  "request_pool_inv s \<Longrightarrow> request_pool_inv (RequestPool_event s e)"
  by (cases e)
    (auto simp: request_pool_inv_def RequestPool_add_def RequestPool_task_def Let_def
      RequestPool_settle_def RequestPool_runNext_def)

lemma request_pool_inv_exec:
  "request_pool_inv s \<Longrightarrow> request_pool_inv (RequestPool_exec evs s)"
  unfolding RequestPool_exec_def
  by (induction evs arbitrary: s) (simp_all add: request_pool_inv_event)

lemma maxConcurrent_event [simp]: "maxConcurrent (RequestPool_event s e) = maxConcurrent s"
  by (cases e)
    (auto simp: RequestPool_add_def RequestPool_task_def Let_def
      RequestPool_settle_def RequestPool_runNext_def)

lemma maxConcurrent_exec [simp]: "maxConcurrent (RequestPool_exec evs s) = maxConcurrent s"
  unfolding RequestPool_exec_def by (induction evs arbitrary: s) simp_all

lemma RequestPool_settle_outcome:
  "RequestPool_settle i out s =
     (RequestPool_settle i out' s)\<lparr>promises := promises s @ [(fst (inFlight s ! i), out)]\<rparr>"
  by (simp add: RequestPool_settle_def RequestPool_runNext_def RequestPool_task_def)

lemma RequestPool_settle_others:
  assumes "i < length (inFlight s)" "j < length (inFlight s)" "j \<noteq> i"
  shows "inFlight s ! j \<in> set (inFlight (RequestPool_settle i out s))"
proof -
  have "inFlight s ! j \<in> set (take i (inFlight s) @ drop (Suc i) (inFlight s))"
  proof (cases "j < i")
    case True
    then have "inFlight s ! j = take i (inFlight s) ! j" by simp
    moreover have "j < length (take i (inFlight s))" using True assms(1) by simp
    ultimately show ?thesis by (metis nth_mem set_append UnI1)
  next
    case False
    with assms(3) have "Suc i \<le> j" by simp
    then obtain d where d: "j = Suc i + d" by (metis le_iff_add)
    then have "inFlight s ! j = drop (Suc i) (inFlight s) ! d" using assms(2) by simp
    moreover have "d < length (drop (Suc i) (inFlight s))" using d assms(2) by simp
    ultimately show ?thesis by (metis nth_mem set_append UnI2)
  qed
  then show ?thesis
    by (auto simp: RequestPool_settle_def RequestPool_runNext_def RequestPool_task_def)
qed

lemma RequestPool_settle_next:
  assumes "request_pool_inv s" "i < length (inFlight s)" "requestQueue s \<noteq> []"
  shows "hd (requestQueue s) \<in> set (inFlight (RequestPool_settle i out s))"
proof -
  have "activeCount s - 1 < maxConcurrent s"
    using assms(1,2) by (auto simp: request_pool_inv_def)
  then show ?thesis
    using assms(3) by (simp add: RequestPool_settle_def RequestPool_runNext_def RequestPool_task_def)
qed

lemma request_pool_example:
  "RequestPool_exec [Request ''p'', Request ''q'', Request ''r''] (RequestPool 2) =
     \<lparr>maxConcurrent = 2, activeCount = 2, requestQueue = [(3, ''r'')], taskCounter = 3,
       inFlight = [(1, ''p''), (2, ''q'')], promises = [], requested = [1, 2]\<rparr>"
  by (simp add: RequestPool_exec_def RequestPool_def RequestPool_add_def RequestPool_task_def
      Let_def)

lemma request_log_inv_init: "request_log_inv (RequestPool c)"
  by (simp add: request_log_inv_def RequestPool_def)

lemma request_log_inv_add:
  assumes "request_log_inv s"
  shows "request_log_inv (snd (RequestPool_add q s))"
proof -
  have b: "\<forall>i \<in> set (requested s) \<union> fst ` set (requestQueue s). i \<le> taskCounter s"
    using assms by (simp add: request_log_inv_def)
  have "Suc (taskCounter s) \<notin> set (requested s) \<union> fst ` set (requestQueue s)"
  proof
    assume "Suc (taskCounter s) \<in> set (requested s) \<union> fst ` set (requestQueue s)"
    with b have "Suc (taskCounter s) \<le> taskCounter s" by (rule bspec)
    then show False by simp
  qed
  then have fresh: "Suc (taskCounter s) \<notin> set (requested s)"
    "Suc (taskCounter s) \<notin> fst ` set (requestQueue s)"
    by simp_all
  show ?thesis
    using assms fresh
    by (auto simp: request_log_inv_def RequestPool_add_def RequestPool_task_def Let_def
        le_Suc_eq)
qed

lemma request_log_inv_runNext:
  assumes "request_log_inv s"
  shows "request_log_inv (RequestPool_runNext s)"
proof (cases "requestQueue s")
  case Nil
  then show ?thesis using assms by (simp add: RequestPool_runNext_def)
next
  case (Cons h q)
  then show ?thesis
    using assms
    by (auto simp: request_log_inv_def RequestPool_runNext_def RequestPool_task_def)
qed

lemma request_log_inv_settle:
  assumes "request_log_inv s"
  shows "request_log_inv (RequestPool_settle i out s)"
proof -
  have "fst ` set (take i (inFlight s) @ drop (Suc i) (inFlight s)) \<subseteq> fst ` set (inFlight s)"
    by (rule image_mono) (rule set_remove_subset)
  moreover have "fst ` set (inFlight s) \<subseteq> set (requested s)"
    using assms by (simp add: request_log_inv_def)
  ultimately have
    "fst ` set (take i (inFlight s) @ drop (Suc i) (inFlight s)) \<subseteq> set (requested s)"
    by (rule subset_trans)
  then have "request_log_inv
     (s\<lparr>promises := promises s @ [(fst (inFlight s ! i), out)],
        activeCount := activeCount s - 1,
        inFlight := take i (inFlight s) @ drop (Suc i) (inFlight s)\<rparr>)"
    using assms by (simp add: request_log_inv_def)
  then show ?thesis
    unfolding RequestPool_settle_def by (rule request_log_inv_runNext)
qed

lemma request_log_inv_event:
  "request_log_inv s \<Longrightarrow> request_log_inv (RequestPool_event s e)"
  by (cases e) (simp_all add: request_log_inv_add request_log_inv_settle)

lemma request_log_inv_exec:
  "request_log_inv s \<Longrightarrow> request_log_inv (RequestPool_exec evs s)"
  unfolding RequestPool_exec_def
  by (induction evs arbitrary: s) (simp_all add: request_log_inv_event)

lemma requested_event: "set (requested s) \<subseteq> set (requested (RequestPool_event s e))"
  by (cases e)
    (auto simp: RequestPool_add_def RequestPool_task_def Let_def
      RequestPool_settle_def RequestPool_runNext_def)

lemma requested_exec: "set (requested s) \<subseteq> set (requested (RequestPool_exec evs s))"
  unfolding RequestPool_exec_def
proof (induction evs arbitrary: s)
  case Nil
  then show ?case by simp
next
  case (Cons e evs)
  show ?case using requested_event [of s e] Cons [of "RequestPool_event s e"] by auto
qed

text \<open>
  A request whose call has settled has been called once, and is never called again,
  whatever the outcome was and whatever happens to the pool afterwards.
\<close>

lemma settled_called_once:
  assumes "s = RequestPool_exec revs (RequestPool c)" "i < length (inFlight s)"
  shows "count_list (requested (RequestPool_exec revs' (RequestPool_settle i out s)))
           (fst (inFlight s ! i)) = 1"
proof -
  let ?s' = "RequestPool_exec revs' (RequestPool_settle i out s)"
  have "?s' = RequestPool_exec (revs @ Settled i out # revs') (RequestPool c)"
    using assms by (simp add: RequestPool_exec_def)
  then have "request_log_inv ?s'"
    by (simp add: request_log_inv_exec request_log_inv_init)
  then have d: "distinct (requested ?s')" by (simp add: request_log_inv_def)
  have "request_log_inv s"
    unfolding assms(1) by (simp add: request_log_inv_exec request_log_inv_init)
  moreover have "inFlight s ! i \<in> set (inFlight s)" using assms(2) by simp
  ultimately have "fst (inFlight s ! i) \<in> set (requested s)"
    by (auto simp: request_log_inv_def)
  moreover have "set (requested s) \<subseteq> set (requested (RequestPool_settle i out s))"
    using requested_event [of s "Settled i out"] assms(2) by simp
  ultimately have "fst (inFlight s ! i) \<in> set (requested ?s')"
    using requested_exec [of "RequestPool_settle i out s" revs'] by blast
  with d have "count (mset (requested ?s')) (fst (inFlight s ! i)) = 1"
    by (simp add: distinct_count_atmost_1)
  then show ?thesis by (simp only: count_mset)
qed

section \<open>Proofs: retryWrapper\<close>

lemma retryWrapper_always_failing:
  assumes "\<And>k. fn k = Inl (err k)"
  shows "retryWrapper fn = (3, Inl (err 2))"
proof -
  have 2: "retryLoop fn (Suc (Suc 0)) (Suc (Suc 0)) = (Suc (Suc (Suc 0)), Inl (err (Suc (Suc 0))))"
    by (subst retryLoop.simps) (simp add: maxRetries_def assms)
  have 1: "retryLoop fn (Suc 0) (Suc 0) = retryLoop fn (Suc (Suc 0)) (Suc (Suc 0))"
    by (subst retryLoop.simps) (simp add: maxRetries_def assms)
  have 0: "retryLoop fn 0 0 = retryLoop fn (Suc 0) (Suc 0)"
    by (subst retryLoop.simps) (simp add: maxRetries_def assms)
  show ?thesis by (simp add: retryWrapper_def 0 1 2 numeral_3_eq_3 numeral_2_eq_2)
qed

lemma retryWrapper_calls_le: "fst (retryWrapper fn) \<le> 3"
proof -
  have 2: "fst (retryLoop fn (Suc (Suc 0)) (Suc (Suc 0))) \<le> 3"
    by (subst retryLoop.simps) (simp add: maxRetries_def split: sum.splits)
  have 1: "fst (retryLoop fn (Suc 0) (Suc 0)) \<le> 3"
    using 2 by (subst retryLoop.simps) (simp add: maxRetries_def split: sum.splits)
  have 0: "fst (retryLoop fn 0 0) \<le> 3"
    using 1 by (subst retryLoop.simps) (simp add: maxRetries_def split: sum.splits)
  then show ?thesis by (simp add: retryWrapper_def)
qed

section \<open>Proofs: paralleTask\<close>











section \<open>Proofs: runConcurrently\<close>

lemma js_set_length: "length (js_set xs i v) = max (length xs) (Suc i)"
  by (simp add: js_set_def)

lemma js_set_nth_same: "js_set xs i v ! i = Some v"
  by (simp add: js_set_def nth_append)

lemma js_set_nth_old: "j < length xs \<Longrightarrow> j \<noteq> i \<Longrightarrow> js_set xs i v ! j = xs ! j"
  by (simp add: js_set_def nth_append)

lemma convertible_describe: "convertible t \<Longrightarrow> \<exists>r. describe t = Some r"
  by (auto simp: convertible_def describe_def split: sum.splits thrown.splits)

lemma runTask_describe:
  assumes "describe (tasks ! index) = Some r"
  shows "runTask tasks index s = Inr (s\<lparr>rc_results := js_set (rc_results s) index r\<rparr>)"
  using assms by (auto simp: runTask_def describe_def split: sum.splits)

lemma runTask_unprintable:
  assumes "tasks ! index = Inl (Unprintable u)"
  shows "runTask tasks index s = Inl u"
  using assms by (simp add: runTask_def)

lemma rc_live_onNext: "rc_live n (onNext n s)"
  by (auto simp: rc_live_def onNext_def Let_def)

lemma rc_base_workers_cong:
  assumes "rc_base tasks s" "\<And>i. InTask i \<in> set ws \<longleftrightarrow> InTask i \<in> set (workers s)"
  shows "rc_base tasks (s\<lparr>workers := ws\<rparr>)"
  using assms by (simp add: rc_base_def)

lemma rc_base_called [simp]: "rc_base tasks (s\<lparr>rc_called := cs\<rparr>) = rc_base tasks s"
  by (simp add: rc_base_def)

lemma rc_base_taskIndex:
  assumes "rc_base tasks s" "length tasks \<le> taskIndex s"
  shows "rc_base tasks (s\<lparr>taskIndex := taskIndex s + 1\<rparr>)"
proof -
  have "min (taskIndex s + 1) (length tasks) = min (taskIndex s) (length tasks)"
    using assms(2) by simp
  then show ?thesis using assms(1) by (simp add: rc_base_def less_Suc_eq)
qed

lemma rc_base_start:
  assumes "rc_base tasks s" "taskIndex s < length tasks"
  shows "rc_base tasks (s\<lparr>taskIndex := taskIndex s + 1,
                          workers := workers s @ [InTask (taskIndex s)]\<rparr>)"
proof -
  have m: "min (taskIndex s + 1) (length tasks) = Suc (taskIndex s)"
          "min (taskIndex s) (length tasks) = taskIndex s"
    using assms(2) by simp_all
  have a: "\<forall>i. InTask i \<in> set (workers s) \<longrightarrow> i < taskIndex s \<and> i < length tasks"
    and b: "length (rc_results s) \<le> taskIndex s"
    and c: "\<forall>i < length (rc_results s). InTask i \<notin> set (workers s) \<longrightarrow>
        rc_results s ! i = describe (tasks ! i)"
    and d: "\<forall>i < taskIndex s. InTask i \<notin> set (workers s) \<longrightarrow> i < length (rc_results s)"
    using assms(1) unfolding rc_base_def m by blast+
  have a': "\<forall>i. InTask i \<in> set (workers s @ [InTask (taskIndex s)]) \<longrightarrow>
               i < taskIndex s + 1 \<and> i < length tasks"
    using a assms(2) by auto
  have c': "\<forall>i < length (rc_results s). InTask i \<notin> set (workers s @ [InTask (taskIndex s)]) \<longrightarrow>
        rc_results s ! i = describe (tasks ! i)"
    using c by auto
  have d': "\<forall>i < Suc (taskIndex s). InTask i \<notin> set (workers s @ [InTask (taskIndex s)]) \<longrightarrow>
        i < length (rc_results s)"
    using d by (auto simp: less_Suc_eq)
  have m': "min (Suc (taskIndex s)) (length tasks) = Suc (taskIndex s)"
    using assms(2) by simp
  show ?thesis
    unfolding rc_base_def using a' b c' d' by (simp add: m')
qed

lemma onNext_cases:
  "onNext n s =
     (if n \<le> taskIndex s then s\<lparr>taskIndex := taskIndex s + 1\<rparr>
      else (s\<lparr>taskIndex := taskIndex s + 1, workers := workers s @ [InTask (taskIndex s)]\<rparr>)
             \<lparr>rc_called := rc_called s @ [taskIndex s]\<rparr>)"
  by (simp add: onNext_def Let_def)

lemma rc_base_onNext:
  assumes "rc_base tasks s"
  shows "rc_base tasks (onNext (length tasks) s)"
proof (cases "taskIndex s \<ge> length tasks")
  case True
  then show ?thesis using rc_base_taskIndex [OF assms True] by (simp add: onNext_cases)
next
  case False
  then show ?thesis using rc_base_start [OF assms] by (simp add: onNext_cases)
qed

lemma rc_base_funpow: "rc_base tasks s \<Longrightarrow> rc_base tasks ((onNext (length tasks) ^^ k) s)"
  by (induction k) (simp_all add: rc_base_onNext)

lemma rc_base_remove:
  assumes "rc_base tasks s" "p < length (workers s)" "\<And>i. workers s ! p \<noteq> InTask i"
  shows "rc_base tasks (s\<lparr>workers := take p (workers s) @ drop (Suc p) (workers s)\<rparr>)"
proof (rule rc_base_workers_cong [OF assms(1)])
  fix i
  show "InTask i \<in> set (take p (workers s) @ drop (Suc p) (workers s)) \<longleftrightarrow>
           InTask i \<in> set (workers s)"
    using in_set_remove_other [of "InTask i" "workers s" p] set_remove_subset [of p "workers s"]
      assms(2,3) by (metis subsetD)
qed

lemma rc_base_runTask:
  assumes "rc_base tasks s" "p < length (workers s)" "workers s ! p = InTask i"
    and r: "describe (tasks ! i) = Some r"
  shows "rc_base tasks (s\<lparr>rc_results := js_set (rc_results s) i r,
                          workers := (workers s)[p := AfterTask]\<rparr>)"
proof -
  let ?ws = "(workers s)[p := AfterTask]"
  let ?rs = "js_set (rc_results s) i r"
  have mem: "InTask i \<in> set (workers s)" using assms(2,3) by (metis nth_mem)
  have i: "i < taskIndex s" "i < length tasks"
    using assms(1) mem by (auto simp: rc_base_def)
  have sub: "InTask j \<in> set ?ws \<Longrightarrow> InTask j \<in> set (workers s)" for j
    using set_update_subset_insert [of "workers s" p AfterTask] by auto
  have other: "InTask j \<in> set (workers s) \<Longrightarrow> j \<noteq> i \<Longrightarrow> InTask j \<in> set ?ws" for j
    using in_set_update_other [of "InTask j" "workers s" p AfterTask] assms(3) by simp
  have a: "\<forall>j. InTask j \<in> set ?ws \<longrightarrow> j < taskIndex s \<and> j < length tasks"
    using assms(1) sub by (auto simp: rc_base_def)
  have len: "length ?rs = max (length (rc_results s)) (Suc i)" by (rule js_set_length)
  have b: "length ?rs \<le> min (taskIndex s) (length tasks)"
    using assms(1) i len by (auto simp: rc_base_def)
  have d0: "\<forall>j < min (taskIndex s) (length tasks). InTask j \<notin> set (workers s) \<longrightarrow>
        j < length (rc_results s)"
    using assms(1) by (simp add: rc_base_def)
  have c: "\<forall>j < length ?rs. InTask j \<notin> set ?ws \<longrightarrow> ?rs ! j = describe (tasks ! j)"
  proof (intro allI impI)
    fix j assume j: "j < length ?rs" and nj: "InTask j \<notin> set ?ws"
    show "?rs ! j = describe (tasks ! j)"
    proof (cases "j = i")
      case True
      then show ?thesis by (simp add: js_set_nth_same r)
    next
      case False
      with nj other have nin: "InTask j \<notin> set (workers s)" by blast
      have "j < min (taskIndex s) (length tasks)" using j b by simp
      with d0 nin have jl: "j < length (rc_results s)" by blast
      then have "?rs ! j = rc_results s ! j" using False by (simp add: js_set_nth_old)
      also have "\<dots> = describe (tasks ! j)"
        using assms(1) jl nin by (simp add: rc_base_def)
      finally show ?thesis .
    qed
  qed
  have d: "\<forall>j < min (taskIndex s) (length tasks). InTask j \<notin> set ?ws \<longrightarrow> j < length ?rs"
  proof (intro allI impI)
    fix j assume j: "j < min (taskIndex s) (length tasks)" and nj: "InTask j \<notin> set ?ws"
    show "j < length ?rs"
    proof (cases "j = i")
      case True
      then show ?thesis using len by simp
    next
      case False
      with nj other have "InTask j \<notin> set (workers s)" by blast
      with d0 j have "j < length (rc_results s)" by blast
      then show ?thesis using len by simp
    qed
  qed
  show ?thesis
    unfolding rc_base_def using a b c d by simp
qed

text \<open>While no task fails with a value that cannot be converted, no chain is rejected.\<close>

lemma rc_clean_onNext: "rc_clean n s \<Longrightarrow> rc_clean n (onNext n s)"
  by (auto simp: rc_clean_def onNext_cases min_def)

lemma rc_clean_funpow: "rc_clean n s \<Longrightarrow> rc_clean n ((onNext n ^^ k) s)"
  by (induction k) (simp_all add: rc_clean_onNext)

lemma rc_clean_remove:
  assumes "rc_clean n s"
  shows "rc_clean n (s\<lparr>workers := take p (workers s) @ drop (Suc p) (workers s)\<rparr>)"
  using assms set_remove_subset [of p "workers s"] by (auto simp: rc_clean_def)

lemma rc_clean_update:
  assumes "rc_clean n s"
  shows "rc_clean n (s\<lparr>rc_results := rs, workers := (workers s)[p := AfterTask]\<rparr>)"
  using assms set_update_subset_insert [of "workers s" p AfterTask]
  by (auto simp: rc_clean_def)

lemma rc_step_convertible:
  assumes "rc_base tasks s" "rc_clean (length tasks) s" "p < length (workers s)"
    and conv: "\<forall>t \<in> set tasks. convertible t"
  shows "rc_base tasks (rc_step tasks p s) \<and> rc_clean (length tasks) (rc_step tasks p s)"
proof (cases "workers s ! p")
  case (InTask i)
  then have "InTask i \<in> set (workers s)" using assms(3) by (metis nth_mem)
  then have "i < length tasks" using assms(1) by (auto simp: rc_base_def)
  then have "convertible (tasks ! i)" using conv by simp
  then obtain r where r: "describe (tasks ! i) = Some r"
    using convertible_describe by blast
  have "rc_step tasks p s =
        s\<lparr>rc_results := js_set (rc_results s) i r, workers := (workers s)[p := AfterTask]\<rparr>"
    using InTask by (simp add: rc_step_def runTask_describe [OF r])
  then show ?thesis
    using rc_base_runTask [OF assms(1,3) InTask r] rc_clean_update [OF assms(2)] by simp
next
  case AfterTask
  then have ne: "\<And>i. workers s ! p \<noteq> InTask i" by simp
  show ?thesis
    using AfterTask rc_base_onNext [OF rc_base_remove [OF assms(1,3) ne]]
      rc_clean_onNext [OF rc_clean_remove [OF assms(2)]]
    by (simp add: rc_step_def)
next
  case (Rejecting u)
  then have "Rejecting u \<in> set (workers s)" using assms(3) by (metis nth_mem)
  then show ?thesis using assms(2) by (simp add: rc_clean_def)
qed

lemma rc_live_step:
  assumes "rc_live (length tasks) s" "p < length (workers s)" "\<And>u. workers s ! p \<noteq> Rejecting u"
  shows "rc_live (length tasks) (rc_step tasks p s)"
proof (cases "workers s ! p")
  case (InTask i)
  then show ?thesis using assms(1,2)
    by (cases "runTask tasks i s")
       (auto simp: rc_step_def rc_live_def runTask_def split: sum.splits)
next
  case AfterTask
  then show ?thesis by (simp add: rc_step_def rc_live_onNext)
next
  case (Rejecting u)
  then show ?thesis using assms(3) by simp
qed

lemma rc_loop_inv:
  assumes "rc_base tasks s" "rc_clean (length tasks) s" "rc_live (length tasks) s"
    and conv: "\<forall>t \<in> set tasks. convertible t"
  shows "rc_base tasks (rc_loop tasks sched s) \<and> rc_clean (length tasks) (rc_loop tasks sched s) \<and>
         rc_live (length tasks) (rc_loop tasks sched s) \<and> workers (rc_loop tasks sched s) = []"
  using assms
proof (induction tasks sched s rule: rc_loop.induct)
  case (1 tasks sched s)
  have nr: "rejection s = None" using "1.prems"(2) by (simp add: rc_clean_def)
  show ?case
  proof (cases "workers s = []")
    case True
    then show ?thesis using "1.prems" by (subst (1 2 3 4) rc_loop.simps) simp
  next
    case False
    then have go: "\<not> (rejection s \<noteq> None \<or> workers s = [])" using nr by simp
    have step: "rc_base tasks (rc_step tasks p s) \<and> rc_clean (length tasks) (rc_step tasks p s) \<and>
                rc_live (length tasks) (rc_step tasks p s)"
      if p: "p < length (workers s)" for p
    proof -
      have "\<And>u. workers s ! p \<noteq> Rejecting u"
        using "1.prems"(2) p by (metis nth_mem rc_clean_def)
      then show ?thesis
        using rc_step_convertible [OF "1.prems"(1,2) p] rc_live_step [OF "1.prems"(3) p]
          "1.prems"(4) by blast
    qed
    show ?thesis
    proof (cases sched)
      case Nil
      have p: "0 < length (workers s)" using False by simp
      from "1.IH"(1) [OF go Nil] step [OF p] "1.prems"(4) show ?thesis
        using go Nil by (subst (1 2 3 4) rc_loop.simps) simp
    next
      case (Cons c cs)
      have p: "c mod length (workers s) < length (workers s)" using False by simp
      from "1.IH"(2) [OF go Cons] step [OF p] "1.prems"(4) show ?thesis
        using go Cons by (subst (1 2 3 4) rc_loop.simps) simp
    qed
  qed
qed

lemma rc_initial:
  assumes "1 \<le> c"
  shows "rc_base tasks ((onNext (length tasks) ^^ nat (min c (int (length tasks))))
              \<lparr>taskIndex = 0, rc_results = [], workers = [], rc_called = [], rejection = None\<rparr>) \<and>
         rc_clean (length tasks) ((onNext (length tasks) ^^ nat (min c (int (length tasks))))
              \<lparr>taskIndex = 0, rc_results = [], workers = [], rc_called = [], rejection = None\<rparr>) \<and>
         rc_live (length tasks) ((onNext (length tasks) ^^ nat (min c (int (length tasks))))
              \<lparr>taskIndex = 0, rc_results = [], workers = [], rc_called = [], rejection = None\<rparr>)"
proof -
  have base: "rc_base tasks
      \<lparr>taskIndex = 0, rc_results = [], workers = [], rc_called = [], rejection = None\<rparr>"
    by (simp add: rc_base_def)
  have clean: "rc_clean (length tasks)
      \<lparr>taskIndex = 0, rc_results = [], workers = [], rc_called = [], rejection = None\<rparr>"
    by (simp add: rc_clean_def)
  show ?thesis
  proof (cases "nat (min c (int (length tasks)))")
    case 0
    then have "length tasks = 0" using assms by (auto simp: min_def split: if_splits)
    then show ?thesis using 0 base clean by (simp add: rc_live_def)
  next
    case (Suc k)
    then show ?thesis
      using rc_base_funpow [OF base, of "Suc k"] rc_clean_funpow [OF clean, of "Suc k"]
      by (simp add: rc_live_onNext)
  qed
qed

lemma rc_run_convertible:
  assumes "1 \<le> c" and conv: "\<forall>t \<in> set tasks. convertible t"
  shows "rejection (rc_run tasks c sched) = None \<and>
         rc_results (rc_run tasks c sched) = map describe tasks \<and>
         rc_called (rc_run tasks c sched) = [0..<length tasks]"
proof -
  let ?s = "rc_run tasks c sched"
  from rc_initial [OF assms(1), of tasks]
  have inv: "rc_base tasks ?s" "rc_clean (length tasks) ?s" "rc_live (length tasks) ?s"
    "workers ?s = []"
    unfolding rc_run_def using rc_loop_inv [OF _ _ _ conv] by blast+
  have ti: "length tasks \<le> taskIndex ?s" using inv(3,4) by (auto simp: rc_live_def)
  have m: "min (taskIndex ?s) (length tasks) = length tasks" using ti by simp
  have "length (rc_results ?s) \<le> length tasks"
    using inv(1) unfolding rc_base_def m by blast
  moreover have "\<not> length (rc_results ?s) < length tasks"
  proof
    assume l: "length (rc_results ?s) < length tasks"
    have "\<forall>i < length tasks. InTask i \<notin> set (workers ?s) \<longrightarrow> i < length (rc_results ?s)"
      using inv(1) unfolding rc_base_def m by blast
    with l inv(4) show False by auto
  qed
  ultimately have len: "length (rc_results ?s) = length tasks" by simp
  have "rc_results ?s = map describe tasks"
  proof (rule nth_equalityI)
    show "length (rc_results ?s) = length (map describe tasks)" using len by simp
  next
    fix i assume "i < length (rc_results ?s)"
    then show "rc_results ?s ! i = map describe tasks ! i"
      using inv(1,4) len by (simp add: rc_base_def)
  qed
  then show ?thesis using inv(2) m by (simp add: rc_clean_def)
qed

lemma runConcurrently_aligned:
  assumes "1 \<le> c" and "\<forall>t \<in> set tasks. convertible t"
  shows "runConcurrently tasks c sched = Inr (map describe tasks)"
  using assms rc_run_convertible [OF assms, of sched] by (simp add: runConcurrently_def)

lemma rc_passed_onNext:
  assumes "rc_passed tasks s"
  shows "rc_passed tasks (onNext (length tasks) s)"
proof (cases "length tasks \<le> taskIndex s")
  case True
  then have "min (taskIndex s + 1) (length tasks) = min (taskIndex s) (length tasks)" by simp
  then show ?thesis using assms True by (simp add: rc_passed_def onNext_cases)
next
  case False
  then have m: "min (Suc (taskIndex s)) (length tasks) = Suc (taskIndex s)"
    "min (taskIndex s) (length tasks) = taskIndex s" by simp_all
  show ?thesis
    using assms False unfolding rc_passed_def onNext_cases
    by (auto simp: m less_Suc_eq)
qed

lemma rc_passed_remove:
  assumes "rc_passed tasks s" "p < length (workers s)" "\<And>i. workers s ! p \<noteq> InTask i"
  shows "rc_passed tasks (s\<lparr>workers := take p (workers s) @ drop (Suc p) (workers s)\<rparr>)"
proof -
  have "InTask i \<in> set (take p (workers s) @ drop (Suc p) (workers s)) \<longleftrightarrow>
           InTask i \<in> set (workers s)" for i
    using in_set_remove_other [of "InTask i" "workers s" p] set_remove_subset [of p "workers s"]
      assms(2,3) by (metis subsetD)
  then show ?thesis using assms(1) by (simp add: rc_passed_def)
qed

lemma rc_passed_done:
  assumes "rc_passed tasks s" "p < length (workers s)" "workers s ! p = InTask i"
    "convertible (tasks ! i)"
  shows "rc_passed tasks (s\<lparr>rc_results := rs, workers := (workers s)[p := AfterTask]\<rparr>)"
proof -
  let ?ws = "(workers s)[p := AfterTask]"
  have sub: "InTask j \<in> set ?ws \<Longrightarrow> InTask j \<in> set (workers s)" for j
    using set_update_subset_insert [of "workers s" p AfterTask] by auto
  have other: "InTask j \<in> set (workers s) \<Longrightarrow> j \<noteq> i \<Longrightarrow> InTask j \<in> set ?ws" for j
    using in_set_update_other [of "InTask j" "workers s" p AfterTask] assms(3) by simp
  have a: "\<forall>j. InTask j \<in> set ?ws \<longrightarrow> j < length tasks"
    using assms(1) sub by (auto simp: rc_passed_def)
  have b: "\<forall>j < min (taskIndex s) (length tasks). InTask j \<notin> set ?ws \<longrightarrow>
        convertible (tasks ! j)"
  proof (intro allI impI)
    fix j assume j: "j < min (taskIndex s) (length tasks)" and nj: "InTask j \<notin> set ?ws"
    show "convertible (tasks ! j)"
    proof (cases "j = i")
      case True
      then show ?thesis using assms(4) by simp
    next
      case False
      with nj other have "InTask j \<notin> set (workers s)" by blast
      then show ?thesis using assms(1) j by (simp add: rc_passed_def)
    qed
  qed
  show ?thesis unfolding rc_passed_def using a b by simp
qed

lemma rc_step_pending:
  assumes "rc_pending tasks s" "rejection s = None" "p < length (workers s)"
  shows "rc_pending tasks (rc_step tasks p s)"
proof (cases "\<exists>u. Rejecting u \<in> set (workers s)")
  case True
  then obtain u where u: "Rejecting u \<in> set (workers s)" by blast
  show ?thesis
  proof (cases "workers s ! p")
    case (InTask i)
    have keep: "Rejecting u \<in> set ((workers s)[p := w])" for w
      using in_set_update_other [of "Rejecting u" "workers s" p w] u InTask by simp
    show ?thesis
      using InTask keep
      by (cases "runTask tasks i s")
         (auto simp: rc_step_def rc_pending_def runTask_def split: sum.splits)
  next
    case AfterTask
    have "Rejecting u \<in> set (take p (workers s) @ drop (Suc p) (workers s))"
      using in_set_remove_other [of "Rejecting u" "workers s" p] u AfterTask assms(3) by simp
    then have "Rejecting u \<in> set (workers (rc_step tasks p s))"
      using AfterTask by (auto simp: rc_step_def onNext_cases)
    then show ?thesis unfolding rc_pending_def by blast
  next
    case (Rejecting u')
    then show ?thesis using assms(2) by (simp add: rc_step_def rc_pending_def)
  qed
next
  case False
  then have live: "rc_live (length tasks) s" and passed: "rc_passed tasks s"
    using assms(1,2) by (auto simp: rc_pending_def)
  show ?thesis
  proof (cases "workers s ! p")
    case (InTask i)
    then have "InTask i \<in> set (workers s)" using assms(3) by (metis nth_mem)
    then have i: "i < length tasks" using passed by (simp add: rc_passed_def)
    show ?thesis
    proof (cases "convertible (tasks ! i)")
      case True
      then obtain r where r: "describe (tasks ! i) = Some r"
        using convertible_describe by blast
      have eq: "rc_step tasks p s =
        s\<lparr>rc_results := js_set (rc_results s) i r, workers := (workers s)[p := AfterTask]\<rparr>"
        using InTask by (simp add: rc_step_def runTask_describe [OF r])
      have "rc_live (length tasks) (rc_step tasks p s)"
        using live assms(3) unfolding eq by (auto simp: rc_live_def)
      moreover have "rc_passed tasks (rc_step tasks p s)"
        unfolding eq using passed assms(3) InTask True by (rule rc_passed_done)
      ultimately show ?thesis by (simp add: rc_pending_def)
    next
      case False
      then obtain u where "tasks ! i = Inl (Unprintable u)"
        by (auto simp: convertible_def split: sum.splits thrown.splits)
      then have "rc_step tasks p s = s\<lparr>workers := (workers s)[p := Rejecting u]\<rparr>"
        using InTask by (simp add: rc_step_def runTask_unprintable)
      moreover have "Rejecting u \<in> set ((workers s)[p := Rejecting u])"
        using assms(3) by (rule set_update_memI)
      ultimately show ?thesis unfolding rc_pending_def by auto
    qed
  next
    case AfterTask
    then have ne: "\<And>i. workers s ! p \<noteq> InTask i" by simp
    have "rc_passed tasks (rc_step tasks p s)"
      using AfterTask rc_passed_onNext [OF rc_passed_remove [OF passed assms(3) ne]]
      by (simp add: rc_step_def)
    moreover have "rc_live (length tasks) (rc_step tasks p s)"
      using AfterTask by (simp add: rc_step_def rc_live_onNext)
    ultimately show ?thesis by (simp add: rc_pending_def)
  next
    case (Rejecting u)
    then show ?thesis using assms(2) by (simp add: rc_step_def rc_pending_def)
  qed
qed

lemma rc_loop_pending:
  assumes "rc_pending tasks s"
  shows "rc_pending tasks (rc_loop tasks sched s) \<and>
         (rejection (rc_loop tasks sched s) \<noteq> None \<or> workers (rc_loop tasks sched s) = [])"
  using assms
proof (induction tasks sched s rule: rc_loop.induct)
  case (1 tasks sched s)
  show ?case
  proof (cases "rejection s \<noteq> None \<or> workers s = []")
    case True
    then show ?thesis using "1.prems" by (subst (1 2 3) rc_loop.simps) auto
  next
    case False
    then have nr: "rejection s = None" and ne: "workers s \<noteq> []" by simp_all
    show ?thesis
    proof (cases sched)
      case Nil
      have p: "0 < length (workers s)" using ne by simp
      from "1.IH"(1) [OF False Nil rc_step_pending [OF "1.prems" nr p]] show ?thesis
        using False Nil by (subst (1 2 3) rc_loop.simps) simp
    next
      case (Cons c cs)
      have p: "c mod length (workers s) < length (workers s)" using ne by simp
      from "1.IH"(2) [OF False Cons rc_step_pending [OF "1.prems" nr p]] show ?thesis
        using False Cons by (subst (1 2 3) rc_loop.simps) simp
    qed
  qed
qed

lemma rc_passed_funpow:
  "rc_passed tasks s \<Longrightarrow> rc_passed tasks ((onNext (length tasks) ^^ k) s)"
  by (induction k) (simp_all add: rc_passed_onNext)

text \<open>
  If a task fails with a value that cannot be converted, \<open>runConcurrently\<close> is rejected,
  in every order of completion.
\<close>

lemma runConcurrently_unconvertible:
  fixes tasks :: "(('e, 'v, 'u) thrown + 'a) list"
  assumes "1 \<le> c" "t \<in> set tasks" "\<not> convertible t"
  shows "\<exists>u. runConcurrently tasks c sched = Inl (Thrown u)"
proof -
  let ?start = "\<lparr>taskIndex = 0, rc_results = [], workers = [], rc_called = [],
     rejection = None\<rparr> :: ('a, 'e, 'v, 'u) rc_state"
  let ?s = "rc_run tasks c sched"
  have "rc_passed tasks ?start" by (simp add: rc_passed_def)
  then have passed: "rc_passed tasks
     ((onNext (length tasks) ^^ nat (min c (int (length tasks)))) ?start)"
    by (rule rc_passed_funpow)
  have "tasks \<noteq> []" using assms(2) by auto
  then obtain k where k: "nat (min c (int (length tasks))) = Suc k"
    using assms(1) by (cases "nat (min c (int (length tasks)))") (auto simp: min_def split: if_splits)
  have "rc_live (length tasks) ((onNext (length tasks) ^^ nat (min c (int (length tasks)))) ?start)"
    unfolding k by (simp add: rc_live_onNext)
  with passed have "rc_pending tasks
     ((onNext (length tasks) ^^ nat (min c (int (length tasks)))) ?start)"
    by (simp add: rc_pending_def)
  then have fin: "rc_pending tasks ?s" "rejection ?s \<noteq> None \<or> workers ?s = []"
    unfolding rc_run_def using rc_loop_pending by blast+
  have "rejection ?s \<noteq> None"
  proof
    assume none: "rejection ?s = None"
    then have w: "workers ?s = []" using fin(2) by simp
    have "rc_live (length tasks) ?s \<and> rc_passed tasks ?s"
      using fin(1) none w unfolding rc_pending_def by simp
    then have live: "rc_live (length tasks) ?s" and passed': "rc_passed tasks ?s"
      by simp_all
    have "length tasks \<le> taskIndex ?s" using live w by (auto simp: rc_live_def)
    then have "\<forall>i < length tasks. convertible (tasks ! i)"
      using passed' w by (simp add: rc_passed_def)
    then have "convertible t" using assms(2) by (auto simp: in_set_conv_nth)
    then show False using assms(3) by simp
  qed
  then show ?thesis using assms(1) by (auto simp: runConcurrently_def)
qed


section \<open>Proofs: executeTasks and retryFailedTasks\<close>

text \<open>
  When the failed tasks are pairwise different closures, a retry records every task under
  the index it failed under, and no index is lost or added.
\<close>

lemma Map_set_fresh: "k \<notin> fst ` set m \<Longrightarrow> Map_set k v m = m @ [(k, v)]"
  by (induction m) auto

lemma Map_set_keys: "fst ` set (Map_set k v m) = insert k (fst ` set m)"
  by (induction m) (force split: if_splits)+

lemma fold_Map_set_distinct:
  "distinct (map fst (acc @ es)) \<Longrightarrow> fold (\<lambda>(k, v). Map_set k v) es acc = acc @ es"
proof (induction es arbitrary: acc)
  case Nil
  then show ?case by simp
next
  case (Cons e es)
  obtain k v where e: "e = (k, v)" by (cases e)
  have fresh: "k \<notin> fst ` set acc" using Cons.prems e by auto
  have "distinct (map fst ((acc @ [(k, v)]) @ es))" using Cons.prems e by simp
  from Cons.IH [OF this] show ?case using fresh e by (simp add: Map_set_fresh)
qed

lemma Map_new_distinct: "distinct (map fst es) \<Longrightarrow> Map_new es = es"
  using fold_Map_set_distinct [of "[]" es] by (simp add: Map_new_def)

lemma retry_originalIndex:
  assumes "distinct (map snd failed)" "p < length failed"
  shows "originalIndex (Map_new (map (\<lambda>(index, task). (task, index)) failed))
           (map snd failed ! p) p = fst (failed ! p)"
proof -
  let ?es = "map (\<lambda>(index, task). (task, index)) failed"
  have keys: "map fst ?es = map snd failed" by (induction failed) auto
  have d: "distinct (map fst ?es)" unfolding keys by (rule assms(1))
  have "(snd (failed ! p), fst (failed ! p)) \<in> set ?es"
  proof -
    have "failed ! p \<in> set failed" using assms(2) by simp
    then have "(\<lambda>(index, task). (task, index)) (failed ! p) \<in> set ?es" by simp
    then show ?thesis by (simp add: case_prod_beta)
  qed
  then have "map_of ?es (snd (failed ! p)) = Some (fst (failed ! p))"
    using d by (rule map_of_is_SomeI [rotated])
  then show ?thesis
    using assms(2) by (simp add: originalIndex_def Map_get_def Map_new_distinct [OF d])
qed

lemma task_returned_index:
  "task_returned tasks taskIndices outcome p = Inr r \<Longrightarrow>
     tr_index r = originalIndex taskIndices (tasks ! p) p"
  by (auto simp: task_returned_def split: sum.splits)

lemma first_thrown_None:
  "first_thrown rs = None \<Longrightarrow> x \<in> set rs \<Longrightarrow> \<exists>r. x = Inr r"
  by (induction rs rule: first_thrown.induct) auto

lemma returned_values_all:
  "\<forall>x \<in> set rs. \<exists>r. x = Inr r \<Longrightarrow> map Inr (returned_values rs) = rs"
  by (induction rs rule: returned_values.induct) auto

text \<open>
  When \<open>Promise.all\<close> is fulfilled and every callback has settled, its value holds what
  each callback returned, at the position of the callback.
\<close>

lemma Promise_all_fulfilled:
  assumes "Promise_all order rs = Inr xs" "set order = {0..<length rs}"
  shows "rs = map Inr xs"
proof -
  have none: "first_thrown (map ((!) rs) order) = None" and xs: "xs = returned_values rs"
    using assms(1) by (auto simp: Promise_all_def split: option.splits)
  have "\<forall>x \<in> set rs. \<exists>r. x = Inr r"
  proof
    fix x assume "x \<in> set rs"
    then obtain i where i: "i < length rs" "x = rs ! i" by (auto simp: in_set_conv_nth)
    then have "x \<in> set (map ((!) rs) order)" using assms(2) by auto
    then show "\<exists>r. x = Inr r" using none by (rule first_thrown_None [rotated])
  qed
  then show ?thesis unfolding xs by (rule returned_values_all [symmetric])
qed

lemma completion_order_set: "set (completion_order sched pending) = set pending"
proof (induction sched pending rule: completion_order.induct)
  case (1 sched)
  then show ?case by simp
next
  case (2 v va)
  then show ?case by simp
next
  case (3 c cs v va)
  let ?pending = "v # va"
  let ?p = "?pending ! (c mod length ?pending)"
  have mem: "?p \<in> set ?pending" by (rule nth_mem) simp
  have sub: "set (remove1 ?p ?pending) \<subseteq> set ?pending" by (rule set_remove1_subset)
  have sup: "x \<in> set (remove1 ?p ?pending)" if "x \<in> set ?pending" "x \<noteq> ?p" for x
    using that in_set_remove1 [of x ?p ?pending] by blast
  have "insert ?p (set (remove1 ?p ?pending)) = set ?pending"
    using mem sub sup by blast
  then show ?case using 3 by simp
qed

lemma retry_keeps_index:
  assumes "distinct (map snd (failedTasks state))"
    and "fst (retryFailedTasks state outcome sched) = Inr rs"
  shows "map tr_index rs = map fst (failedTasks state)"
proof -
  let ?failed = "failedTasks state"
  let ?ix = "Map_new (map (\<lambda>(index, task). (task, index)) ?failed)"
  let ?returned = "map (task_returned (map snd ?failed) ?ix outcome) [0..<length ?failed]"
  have "Promise_all (completion_order sched [0..<length ?failed]) ?returned = Inr rs"
    using assms(2) by (simp add: retryFailedTasks_def executeTasks_def Let_def)
  then have eq: "?returned = map Inr rs"
    by (rule Promise_all_fulfilled) (simp add: completion_order_set)
  then have len: "length rs = length ?failed"
    using length_map [of Inr rs] length_map [of "task_returned (map snd ?failed) ?ix outcome"
        "[0..<length ?failed]"] by simp
  show ?thesis
  proof (rule nth_equalityI)
    show "length (map tr_index rs) = length (map fst ?failed)" using len by simp
  next
    fix p assume "p < length (map tr_index rs)"
    then have p: "p < length ?failed" using len by simp
    have "?returned ! p = map Inr rs ! p" using eq by simp
    then have "task_returned (map snd ?failed) ?ix outcome p = Inr (rs ! p)"
      using p len by simp
    then have "tr_index (rs ! p) = originalIndex ?ix (map snd ?failed ! p) p"
      by (rule task_returned_index)
    then show "map tr_index rs ! p = map fst ?failed ! p"
      using retry_originalIndex [OF assms(1) p] p len by simp
  qed
qed

lemma task_settled_recorded:
  "recorded (task_settled tasks taskIndices outcome p state) =
     insert (originalIndex taskIndices (tasks ! p) p) (recorded state)"
  by (auto simp: recorded_def task_settled_def Map_set_keys split: sum.splits)

lemma fold_settled_recorded:
  "recorded (fold (task_settled tasks taskIndices outcome) order state) =
     (\<lambda>p. originalIndex taskIndices (tasks ! p) p) ` set order \<union> recorded state"
  by (induction order arbitrary: state) (auto simp: task_settled_recorded)

lemma retry_keeps_recorded:
  assumes "distinct (map snd (failedTasks state))"
  shows "recorded (snd (retryFailedTasks state outcome sched)) = recorded state"
proof -
  let ?failed = "failedTasks state"
  let ?ix = "Map_new (map (\<lambda>(index, task). (task, index)) ?failed)"
  have "(\<lambda>p. originalIndex ?ix (map snd ?failed ! p) p) ` {0..<length ?failed} =
        fst ` set ?failed"
  proof -
    have "(\<lambda>p. originalIndex ?ix (map snd ?failed ! p) p) ` {0..<length ?failed} =
          (\<lambda>p. fst (?failed ! p)) ` {0..<length ?failed}"
      using retry_originalIndex [OF assms] by (intro image_cong) simp_all
    also have "\<dots> = set (map fst (map ((!) ?failed) [0..<length ?failed]))"
      by (simp add: image_image)
    also have "\<dots> = fst ` set ?failed"
      by (simp only: map_nth set_map)
    finally show ?thesis .
  qed
  note img = this
  have "recorded (snd (retryFailedTasks state outcome sched)) =
        (\<lambda>p. originalIndex ?ix (map snd ?failed ! p) p) `
          set (completion_order sched [0..<length ?failed]) \<union>
        recorded (state\<lparr>failedTasks := []\<rparr>)"
    by (simp add: retryFailedTasks_def executeTasks_def Let_def fold_settled_recorded)
  also have "\<dots> = fst ` set ?failed \<union> recorded (state\<lparr>failedTasks := []\<rparr>)"
    using img by (simp only: completion_order_set set_upt)
  also have "\<dots> = recorded state"
    by (auto simp: recorded_def)
  finally show ?thesis .
qed

section \<open>The claims\<close>

text \<open>
  C1. In every state a \<open>RequestPool\<close> or an \<open>AsyncTaskPool\<close> reaches, by any sequence of
  submissions and settlements, the count of running tasks is between 0 and the configured
  limit. The limit is an integer, as in the specification. The constructors of
  \<open>RequestPool\<close> and of the \<open>AsyncTaskPool\<close> with \<open>add\<close> do not check it, and the bound
  holds for every limit that is not negative; the \<open>AsyncTaskPool\<close> with \<open>addTask\<close> throws
  on a limit below 1.
\<close>

theorem running_count_bounded:
  fixes evs1 :: "('t1, 'r1) event1 list"
  assumes "0 \<le> c"
  shows "0 \<le> activeCount (RequestPool_exec revs (RequestPool c)) \<and>
         activeCount (RequestPool_exec revs (RequestPool c)) \<le> c \<and>
         0 \<le> runningCount (exec evs (init c)) \<and>
         runningCount (exec evs (init c)) \<le> c \<and>
         (case AsyncTaskPool c of
            Inl err \<Rightarrow> c < 1
          | Inr s0 \<Rightarrow> 0 \<le> runningTasks (exec1 evs1 s0) \<and> runningTasks (exec1 evs1 s0) \<le> c)"
proof -
  have "request_pool_inv (RequestPool_exec revs (RequestPool c))"
    by (simp add: request_pool_inv_exec request_pool_inv_init)
  moreover have "maxConcurrent (RequestPool_exec revs (RequestPool c)) = c"
    by (simp add: RequestPool_def)
  moreover have "pool_inv (exec evs (init c))"
    by (rule pool_inv_reachable)
  moreover have "concurrency (exec evs (init c)) = c"
    by (simp add: init_def)
  moreover have "case AsyncTaskPool c of
            Inl err \<Rightarrow> c < 1
          | Inr s0 \<Rightarrow> 0 \<le> runningTasks (exec1 evs1 s0) \<and> runningTasks (exec1 evs1 s0) \<le> c"
  proof (cases "AsyncTaskPool c :: pool1_error + ('t1, 'r1) pool1")
    case (Inl err)
    then show ?thesis by (simp add: AsyncTaskPool_def split: if_splits)
  next
    case (Inr s0)
    then have "pool1_inv (exec1 evs1 s0)" by (simp add: pool1_inv_exec pool1_inv_init)
    moreover have "maxConcurrency (exec1 evs1 s0) = c"
      using Inr by (auto simp: AsyncTaskPool_def split: if_splits)
    ultimately show ?thesis using Inr by (auto simp: pool1_inv_def pool1_core_def)
  qed
  ultimately show ?thesis
    using assms by (auto simp: request_pool_inv_def pool_inv_def)
qed

theorem running_count_bounded_witness:
  "0 \<le> activeCount (RequestPool_exec [Request ''p'', Request ''q'', Request ''r'', Settled 0 (Inr ''ok'')]
           (RequestPool 2 :: (string, string, string) request_pool)) \<and>
   activeCount (RequestPool_exec [Request ''p'', Request ''q'', Request ''r'', Settled 0 (Inr ''ok'')]
           (RequestPool 2 :: (string, string, string) request_pool)) \<le> 2 \<and>
   0 \<le> runningCount (exec [Add ''A'', Add ''B'', Add ''C'', Settle 1 Rejected, Finally 1]
           (init 2 :: (string, string) pool)) \<and>
   runningCount (exec [Add ''A'', Add ''B'', Add ''C'', Settle 1 Rejected, Finally 1]
           (init 2 :: (string, string) pool)) \<le> 2 \<and>
   runningTasks (exec1 [AddTask ''A'', AddTask ''B'', AddTask ''C'', TaskSettled 0 Rejected]
     \<lparr>maxConcurrency = 2, waitingTasks = [], runningTasks = 0, results1 = ([] :: string list),
       allCompleted = False, completion = None, awaiting = [], started1 = [],
       submitted1 = [], succeeded1 = []\<rparr>) \<le> 2"
  using running_count_bounded [where c = 2
      and revs = "[Request ''p'', Request ''q'', Request ''r'', Settled 0 (Inr ''ok'')] :: (string, string, string) request_event list"
      and evs = "[Add ''A'', Add ''B'', Add ''C'', Settle 1 Rejected, Finally 1] :: (string, string) event list"
      and ?evs1.0 = "[AddTask ''A'', AddTask ''B'', AddTask ''C'', TaskSettled 0 Rejected] :: (string, string) event1 list"]
  by (simp add: pool1_example)

text \<open>
  C2 (as the code has it). \<open>retryWrapper\<close>, whose bound is the constant \<open>maxRetries = 3\<close>,
  never calls its function more than 3 times, calls a function that always fails exactly
  3 times and then throws the error of the third call. \<open>AsyncTaskPool\<close> has no bound: a
  task that always fails is pushed back after every failure and started again, \<open>n + 1\<close>
  times after \<open>n\<close> failures, and the pool never finishes nor records anything for it.
\<close>

theorem retry_bound:
  "fst (retryWrapper fn) \<le> 3 \<and>
   ((\<forall>k. fn k = Inl (err k)) \<longrightarrow> retryWrapper fn = (3, Inl (err 2))) \<and>
   started (exec (Add t # failing_rounds n) (init 1 :: ('t, 'r) pool)) = replicate (Suc n) t \<and>
   \<not> finished (exec (Add t # failing_rounds n) (init 1 :: ('t, 'r) pool)) \<and>
   results (exec (Add t # failing_rounds n) (init 1 :: ('t, 'r) pool)) = []"
  by (simp add: failing_rounds_state retryWrapper_always_failing retryWrapper_calls_le)

theorem retry_bound_witness:
  "retryWrapper (\<lambda>k. Inl (''error'', k) :: (string \<times> nat) + string) = (3, Inl (''error'', 2)) \<and>
   started (exec (Add ''A'' # failing_rounds 5) (init 1 :: (string, string) pool)) = replicate 6 ''A''"
  using retry_bound [of "\<lambda>k. Inl (''error'', k) :: (string \<times> nat) + string" "\<lambda>k. (''error'', k)" "''A''" 5,
      where ?'r = string]
  by (simp add: eval_nat_numeral)

text \<open>
  C2 as the specification states it fails on \<open>AsyncTaskPool\<close>: after three failures the
  task has been started a fourth time.
\<close>

theorem retry_bound_counterexample:
  "started (exec [Add ''A'', Settle 0 Rejected, Finally 0, Settle 0 Rejected, Finally 0,
       Settle 0 Rejected, Finally 0] (init 1 :: (string, string) pool)) = [''A'', ''A'', ''A'', ''A''] \<and>
   chains (exec [Add ''A'', Settle 0 Rejected, Finally 0, Settle 0 Rejected, Finally 0,
       Settle 0 Rejected, Finally 0] (init 1 :: (string, string) pool)) = [(''A'', Pending)] \<and>
   \<not> finished (exec [Add ''A'', Settle 0 Rejected, Finally 0, Settle 0 Rejected, Finally 0,
       Settle 0 Rejected, Finally 0] (init 1 :: (string, string) pool))"
  by (simp add: exec_def add_def init_def settle_def onFinally_def checkIfDone_def runNext_closed)

text \<open>
  C3 (as the code has it). The promise of \<open>awaitAll\<close> (and \<open>completionPromise\<close> of
  \<open>waitForAll\<close>) is never resolved in a state with a running task or a non-empty queue.
  It is resolved exactly in the states where both are zero and a task has been submitted:
  a caller that awaits an unfinished pool stays in \<open>pendingResolvers\<close> until the pool is
  finished and then holds the results.
\<close>

theorem completion_only_when_drained:
  assumes "s = exec evs (init c)" and "AsyncTaskPool c1 = Inr s0" and "s1 = exec1 evs1 s0"
  shows "(runningCount s \<noteq> 0 \<or> taskQueue s \<noteq> [] \<longrightarrow>
            resolved s = [] \<and> fst (awaitAll w s) = None) \<and>
         (finished s \<longleftrightarrow> runningCount s = 0 \<and> taskQueue s = [] \<and> submitted s \<noteq> []) \<and>
         (resolved s \<noteq> [] \<or> fst (awaitAll w s) \<noteq> None \<longrightarrow> finished s) \<and>
         (\<not> finished s \<longrightarrow> waiter_inv w (exec evs' (snd (awaitAll w s)))) \<and>
         (runningTasks s1 \<noteq> 0 \<or> waitingTasks s1 \<noteq> [] \<longrightarrow> waitForAll s1 = None) \<and>
         (waitForAll s1 \<noteq> None \<longleftrightarrow>
            runningTasks s1 = 0 \<and> waitingTasks s1 = [] \<and> submitted1 s1 \<noteq> [])"
proof -
  note inv = pool_facts [OF assms(1)]
  note inv1 = pool1_facts [OF assms(2,3)]
  have a: "runningCount s \<noteq> 0 \<or> taskQueue s \<noteq> [] \<longrightarrow> resolved s = [] \<and> fst (awaitAll w s) = None"
    using inv(1) by (auto simp: pool_inv_def awaitAll_def)
  have b: "finished s \<longleftrightarrow> runningCount s = 0 \<and> taskQueue s = [] \<and> submitted s \<noteq> []"
    using inv by (auto simp: pool_inv_def busy_inv_def)
  have c: "resolved s \<noteq> [] \<or> fst (awaitAll w s) \<noteq> None \<longrightarrow> finished s"
    using inv(1) by (auto simp: pool_inv_def awaitAll_def)
  have d: "\<not> finished s \<longrightarrow> waiter_inv w (exec evs' (snd (awaitAll w s)))"
  proof
    assume nf: "\<not> finished s"
    have "pool_inv (snd (awaitAll w s))" using inv(1) by (rule pool_inv_awaitAll)
    moreover have "waiter_inv w (snd (awaitAll w s))"
      using nf by (simp add: waiter_inv_def awaitAll_def)
    ultimately show "waiter_inv w (exec evs' (snd (awaitAll w s)))"
      by (rule waiter_inv_exec)
  qed
  have e: "runningTasks s1 \<noteq> 0 \<or> waitingTasks s1 \<noteq> [] \<longrightarrow> waitForAll s1 = None"
    using inv1 by (auto simp: pool1_inv_def pool1_core_def waitForAll_def)
  have f: "waitForAll s1 \<noteq> None \<longleftrightarrow>
            runningTasks s1 = 0 \<and> waitingTasks s1 = [] \<and> submitted1 s1 \<noteq> []"
    using inv1 by (auto simp: pool1_inv_def pool1_core_def waitForAll_def)
  from a b c d e f show ?thesis by blast
qed

theorem completion_only_when_drained_witness:
  "resolved (exec [AwaitAll 4, Add ''A'', Add ''B''] (init 1 :: (string, string) pool)) = [] \<and>
   fst (awaitAll 5 (exec [AwaitAll 4, Add ''A'', Add ''B''] (init 1 :: (string, string) pool))) = None \<and>
   waiter_inv 5 (exec [Settle 0 (Fulfilled ''a''), Finally 0, Settle 0 (Fulfilled ''b''), Finally 0]
     (snd (awaitAll 5 (exec [AwaitAll 4, Add ''A'', Add ''B''] (init 1 :: (string, string) pool))))) \<and>
   waitForAll (exec1 [AddTask ''A'', TaskSettled 0 (Fulfilled ''a'')]
     \<lparr>maxConcurrency = 2, waitingTasks = [], runningTasks = 0, results1 = [],
       allCompleted = False, completion = None, awaiting = [], started1 = [],
       submitted1 = [], succeeded1 = []\<rparr>) \<noteq> None"
  using completion_only_when_drained [OF refl pool1_example refl,
      of "[AwaitAll 4, Add ''A'', Add ''B'']" 1 5
         "[Settle 0 (Fulfilled ''a''), Finally 0, Settle 0 (Fulfilled ''b''), Finally 0]"
         "[AddTask ''A'', TaskSettled 0 (Fulfilled ''a'')]"]
  unfolding busy_example pool1_drained_example by simp

text \<open>
  C3 as the specification states it fails on a pool that never got a task: nothing runs,
  the queue is empty, and the promise of \<open>awaitAll\<close> stays pending.
\<close>

theorem completion_counterexample:
  "runningCount (init 3 :: (string, string) pool) = 0 \<and>
   taskQueue (init 3 :: (string, string) pool) = [] \<and>
   fst (awaitAll 0 (init 3 :: (string, string) pool)) = None \<and>
   resolved (snd (awaitAll 0 (init 3 :: (string, string) pool))) = [] \<and>
   pendingResolvers (snd (awaitAll 0 (init 3 :: (string, string) pool))) = [0]"
  by (simp add: init_def awaitAll_def)

text \<open>
  C4 (as the code has it). Once the pool has drained (nothing runs, nothing is queued,
  after a submission) it is closed for good: \<open>add\<close> (\<open>addTask\<close>) throws, and no later
  event changes the state, so \<open>finished\<close> (\<open>allCompleted\<close>) stays true and the results
  stay those of the one cycle.
\<close>

theorem add_after_drain_rejected:
  assumes "s = exec evs (init c)" and "AsyncTaskPool c1 = Inr s0" and "s1 = exec1 evs1 s0"
  shows "(runningCount s = 0 \<and> taskQueue s = [] \<and> submitted s \<noteq> [] \<longrightarrow>
            add task s = Inl PoolClosed \<and> finished s \<and> exec evs' s = s) \<and>
         (runningTasks s1 = 0 \<and> waitingTasks s1 = [] \<and> submitted1 s1 \<noteq> [] \<longrightarrow>
            addTask task s1 = Inl AllCompleted \<and> allCompleted s1 \<and> exec1 evs1' s1 = s1)"
proof -
  note inv = pool_facts [OF assms(1)]
  note inv1 = pool1_facts [OF assms(2,3)]
  show ?thesis
    using finished_frozen_exec [OF inv(1)] allCompleted_frozen_exec [OF inv1]
      finished_iff [OF assms(1)] allCompleted_iff [OF assms(2,3)]
    by (simp add: add_def addTask_def)
qed

theorem add_after_drain_rejected_witness:
  "add ''B'' (exec [Add ''A'', Settle 0 (Fulfilled ''a''), Finally 0] (init 3 :: (string, string) pool)) =
     Inl PoolClosed \<and>
   exec [Add ''B'', AwaitAll 0] (exec [Add ''A'', Settle 0 (Fulfilled ''a''), Finally 0] (init 3)) =
     (exec [Add ''A'', Settle 0 (Fulfilled ''a''), Finally 0] (init 3) :: (string, string) pool) \<and>
   addTask ''B'' (exec1 [AddTask ''A'', TaskSettled 0 (Fulfilled ''a'')]
     \<lparr>maxConcurrency = 2, waitingTasks = [], runningTasks = 0, results1 = [],
       allCompleted = False, completion = None, awaiting = [], started1 = [],
       submitted1 = [], succeeded1 = []\<rparr>) = Inl AllCompleted"
  using add_after_drain_rejected [where evs = "[Add ''A'', Settle 0 (Fulfilled ''a''), Finally 0]"
      and c = 3 and task = "''B''" and evs' = "[Add ''B'', AwaitAll 0]"
      and ?evs1.0 = "[AddTask ''A'', TaskSettled 0 (Fulfilled ''a'')]" and evs1' = "[]",
      OF refl pool1_example refl]
  unfolding drained_example pool1_drained_example by simp

text \<open>
  C4 as the specification states it fails: after a drain a new submission is not accepted
  and the drained state is not reset.
\<close>

theorem add_after_drain_counterexample:
  "add ''B'' (exec [Add ''A'', Settle 0 (Fulfilled ''a''), Finally 0] (init 3 :: (string, string) pool)) =
     Inl PoolClosed \<and>
   finished (exec [Add ''B''] (exec [Add ''A'', Settle 0 (Fulfilled ''a''), Finally 0]
     (init 3 :: (string, string) pool))) \<and>
   addTask ''B'' (exec1 [AddTask ''A'', TaskSettled 0 (Fulfilled ''a'')]
     \<lparr>maxConcurrency = 2, waitingTasks = [], runningTasks = 0, results1 = [],
       allCompleted = False, completion = None, awaiting = [], started1 = [],
       submitted1 = [], succeeded1 = []\<rparr>) = Inl AllCompleted"
  unfolding drained_example pool1_drained_example by (simp add: exec_def add_def addTask_def)







text \<open>
  C7 (as the code has it). \<open>runConcurrently\<close>, for tasks that fulfil or that fail with an
  \<open>Error\<close> or with a value \<open>String\<close> converts: the failure of task \<open>N\<close> is not thrown to the
  caller, it is written at index \<open>N\<close> of the result and nowhere else, every other entry is
  what it is without the failure, and every task is called once, the failed one too. In
  \<open>RequestPool\<close> a failure is handed to the caller of \<open>add\<close>, by rejecting the promise
  \<open>add\<close> returned; apart from that promise the pool goes on exactly as after a success:
  the other requests in flight stay in flight, the slot is freed and the next queued
  request is started; the failed request has been called once and is not called again.
\<close>

theorem task_failure_contained:
  fixes tasks :: "(('e, 'v, 'u) thrown + 'a) list"
  assumes "1 \<le> maxConc" and "N < length tasks" and "M < length tasks" and "M \<noteq> N"
    and "\<forall>t \<in> set tasks. convertible t"
    and "convertible (Inl err :: ('e, 'v, 'u) thrown + 'a)"
    and "s = RequestPool_exec revs (RequestPool c)" and "i < length (inFlight s)"
  shows "(\<exists>rs rs' e'. runConcurrently tasks maxConc sched = Inr rs \<and>
            runConcurrently (tasks[N := Inl err]) maxConc sched' = Inr rs' \<and>
            to_Error err = Inr e' \<and>
            rs' ! N = Some \<lparr>success = False, data = None, error = Some e'\<rparr> \<and>
            rs' ! M = rs ! M \<and> rs ! M = describe (tasks ! M) \<and>
            length rs' = length tasks) \<and>
         rc_called (rc_run (tasks[N := Inl err]) maxConc sched') = [0..<length tasks] \<and>
         RequestPool_settle i (Inl e) s =
           (RequestPool_settle i (Inr r) s)\<lparr>promises := promises s @ [(fst (inFlight s ! i), Inl e)]\<rparr> \<and>
         (\<forall>j < length (inFlight s). j \<noteq> i \<longrightarrow>
            inFlight s ! j \<in> set (inFlight (RequestPool_settle i (Inl e) s))) \<and>
         (requestQueue s \<noteq> [] \<longrightarrow>
            hd (requestQueue s) \<in> set (inFlight (RequestPool_settle i (Inl e) s))) \<and>
         count_list (requested (RequestPool_exec revs' (RequestPool_settle i (Inl e) s)))
           (fst (inFlight s ! i)) = 1"
proof -
  have conv': "\<forall>t \<in> set (tasks[N := Inl err]). convertible t"
  proof
    fix t assume "t \<in> set (tasks[N := Inl err])"
    then have "t \<in> insert (Inl err) (set tasks)"
      using set_update_subset_insert [of tasks N "Inl err"] by blast
    then show "convertible t" using assms(5,6) by auto
  qed
  obtain e' where e': "to_Error err = Inr e'"
    using assms(6) by (cases err) (simp_all add: convertible_def)
  have 1: "runConcurrently tasks maxConc sched = Inr (map describe tasks)"
    using assms(1,5) by (rule runConcurrently_aligned)
  have 2: "runConcurrently (tasks[N := Inl err]) maxConc sched' =
           Inr (map describe (tasks[N := Inl err]))"
    using assms(1) conv' by (rule runConcurrently_aligned)
  have 3: "map describe (tasks[N := Inl err]) ! N =
           Some \<lparr>success = False, data = None, error = Some e'\<rparr>"
    using assms(2) e' by (simp add: describe_def)
  have 4: "map describe (tasks[N := Inl err]) ! M = map describe tasks ! M"
    using assms(3,4) by simp
  have 5: "map describe tasks ! M = describe (tasks ! M)"
    using assms(3) by simp
  have 6: "length (map describe (tasks[N := Inl err])) = length tasks" by simp
  have a: "\<exists>rs rs' e'. runConcurrently tasks maxConc sched = Inr rs \<and>
            runConcurrently (tasks[N := Inl err]) maxConc sched' = Inr rs' \<and>
            to_Error err = Inr e' \<and>
            rs' ! N = Some \<lparr>success = False, data = None, error = Some e'\<rparr> \<and>
            rs' ! M = rs ! M \<and> rs ! M = describe (tasks ! M) \<and>
            length rs' = length tasks"
    using 1 2 3 4 5 6 e' by blast
  have b: "rc_called (rc_run (tasks[N := Inl err]) maxConc sched') = [0..<length tasks]"
    using rc_run_convertible [OF assms(1) conv', of sched'] by simp
  have inv: "request_pool_inv s"
    unfolding assms(7) by (simp add: request_pool_inv_exec request_pool_inv_init)
  have c: "\<forall>j < length (inFlight s). j \<noteq> i \<longrightarrow>
            inFlight s ! j \<in> set (inFlight (RequestPool_settle i (Inl e) s))"
    using RequestPool_settle_others [OF assms(8)] by blast
  have d: "requestQueue s \<noteq> [] \<longrightarrow>
            hd (requestQueue s) \<in> set (inFlight (RequestPool_settle i (Inl e) s))"
    using RequestPool_settle_next [OF inv assms(8)] by blast
  show ?thesis
    by (intro conjI a b c d RequestPool_settle_outcome settled_called_once [OF assms(7,8)])
qed

theorem task_failure_contained_witness:
  "(\<exists>rs rs' e'. runConcurrently [Inr ''a'', Inr ''b'' :: (string, string, string) thrown + string] 2 [] = Inr rs \<and>
      runConcurrently ([Inr ''a'', Inr ''b'' :: (string, string, string) thrown + string]
        [0 := Inl (ErrorObject ''boom'')]) 2 [1] = Inr rs' \<and>
      to_Error (ErrorObject ''boom'' :: (string, string, string) thrown) = Inr e' \<and>
      rs' ! 0 = Some \<lparr>success = False, data = None, error = Some e'\<rparr> \<and>
      rs' ! 1 = rs ! 1 \<and>
      rs ! 1 = describe ([Inr ''a'', Inr ''b'' :: (string, string, string) thrown + string] ! 1) \<and>
      length rs' = length [Inr ''a'', Inr ''b'' :: (string, string, string) thrown + string]) \<and>
   rc_called (rc_run ([Inr ''a'', Inr ''b'' :: (string, string, string) thrown + string]
      [0 := Inl (ErrorObject ''boom'')]) 2 [1]) = [0, 1] \<and>
   (3, ''r'') \<in> set (inFlight (RequestPool_settle 0 (Inl ''boom'')
      (RequestPool_exec [Request ''p'', Request ''q'', Request ''r'']
         (RequestPool 2 :: (string, string, string) request_pool)))) \<and>
   count_list (requested (RequestPool_exec [Request ''s'', Settled 0 (Inr ''ok'')]
      (RequestPool_settle 0 (Inl ''boom'')
        (RequestPool_exec [Request ''p'', Request ''q'', Request ''r'']
           (RequestPool 2 :: (string, string, string) request_pool))))) 1 = 1"
proof -
  have p: "(1::int) \<le> 2" "0 < length [Inr ''a'', Inr ''b'' :: (string, string, string) thrown + string]"
    "1 < length [Inr ''a'', Inr ''b'' :: (string, string, string) thrown + string]" "(1::nat) \<noteq> 0"
    "\<forall>t \<in> set [Inr ''a'', Inr ''b'' :: (string, string, string) thrown + string]. convertible t"
    "convertible (Inl (ErrorObject ''boom'') :: (string, string, string) thrown + string)"
    by (simp_all add: convertible_def)
  have q: "0 < length (inFlight (RequestPool_exec [Request ''p'', Request ''q'', Request ''r'']
         (RequestPool 2 :: (string, string, string) request_pool)))"
    by (simp add: request_pool_example)
  note t = task_failure_contained [where sched = "[]" and sched' = "[1]"
      and e = "''boom''" and revs' = "[Request ''s'', Settled 0 (Inr ''ok'')]", OF p refl q]
  have a: "rc_called (rc_run ([Inr ''a'', Inr ''b'' :: (string, string, string) thrown + string]
      [0 := Inl (ErrorObject ''boom'')]) 2 [1]) = [0, 1]"
    using t [THEN conjunct2, THEN conjunct1] by (simp add: upt_rec)
  have "requestQueue (RequestPool_exec [Request ''p'', Request ''q'', Request ''r'']
         (RequestPool 2 :: (string, string, string) request_pool)) \<noteq> [] \<longrightarrow>
     hd (requestQueue (RequestPool_exec [Request ''p'', Request ''q'', Request ''r'']
         (RequestPool 2 :: (string, string, string) request_pool)))
       \<in> set (inFlight (RequestPool_settle 0 (Inl ''boom'')
      (RequestPool_exec [Request ''p'', Request ''q'', Request ''r'']
         (RequestPool 2 :: (string, string, string) request_pool))))"
    by (rule t [THEN conjunct2, THEN conjunct2, THEN conjunct2, THEN conjunct2, THEN conjunct1])
  then have b: "(3, ''r'') \<in> set (inFlight (RequestPool_settle 0 (Inl ''boom'')
      (RequestPool_exec [Request ''p'', Request ''q'', Request ''r'']
         (RequestPool 2 :: (string, string, string) request_pool))))"
    by (simp add: request_pool_example)
  have c: "count_list (requested (RequestPool_exec [Request ''s'', Settled 0 (Inr ''ok'')]
      (RequestPool_settle 0 (Inl ''boom'')
        (RequestPool_exec [Request ''p'', Request ''q'', Request ''r'']
           (RequestPool 2 :: (string, string, string) request_pool))))) 1 = 1"
    using t [THEN conjunct2, THEN conjunct2, THEN conjunct2, THEN conjunct2, THEN conjunct2]
    by (simp add: request_pool_example)
  show ?thesis
    apply (intro conjI)
       apply (rule t [THEN conjunct1])
      apply (rule a)
     apply (rule b)
    apply (rule c)
    done
qed

text \<open>
  C7 as the specification states it fails on \<open>RequestPool\<close>: the failure of a request
  reaches its submitter (the promise returned by \<open>add\<close> is rejected with the error), the
  request is not tried again, and the pool stores no result.
\<close>

theorem task_failure_counterexample:
  "promises (RequestPool_exec [Request ''p'', Request ''q'', Settled 0 (Inl ''boom'')]
     (RequestPool 1 :: (string, string, string) request_pool)) = [(1, Inl ''boom'')] \<and>
   inFlight (RequestPool_exec [Request ''p'', Request ''q'', Settled 0 (Inl ''boom'')]
     (RequestPool 1 :: (string, string, string) request_pool)) = [(2, ''q'')] \<and>
   requestQueue (RequestPool_exec [Request ''p'', Request ''q'', Settled 0 (Inl ''boom'')]
     (RequestPool 1 :: (string, string, string) request_pool)) = [] \<and>
   requested (RequestPool_exec [Request ''p'', Request ''q'', Settled 0 (Inl ''boom'')]
     (RequestPool 1 :: (string, string, string) request_pool)) = [1, 2]"
  by (simp add: RequestPool_exec_def RequestPool_def RequestPool_add_def RequestPool_task_def
      RequestPool_settle_def RequestPool_runNext_def Let_def)

text \<open>
  C8 holds when the failed tasks are different closures (\<open>retry_keeps_index\<close>,
  \<open>retry_keeps_recorded\<close>). It fails at this input: the same closure twice in the array. Both calls fail and are
  stored under the indexes 0 and 1; \<open>retryFailedTasks\<close> keys \<open>taskIndices\<close> by the closure,
  so both retried calls get the index 1: the success of the task of index 0 is recorded
  under index 1, then overwritten, and index 0 is in neither map.
\<close>

theorem retry_loses_index:
  "executor_runTasks [''f'', ''f'']
     (\<lambda>p. Inl (ErrorObject ''boom'') :: (string, string, string) thrown + string) [] =
     Inr ([\<lparr>tr_success = False, tr_index = 0, tr_result = None, tr_error = Some (Same ''boom'')\<rparr>,
           \<lparr>tr_success = False, tr_index = 1, tr_result = None, tr_error = Some (Same ''boom'')\<rparr>],
          \<lparr>successResults = [], failedTasks = [(0, ''f''), (1, ''f'')]\<rparr>) \<and>
   retryFailedTasks \<lparr>successResults = [], failedTasks = [(0, ''f''), (1, ''f'')]\<rparr>
     (\<lambda>p. if p = 0 then Inr ''a'' else (Inr ''b'' :: (string, string, string) thrown + string)) [] =
     (Inr [\<lparr>tr_success = True, tr_index = 1, tr_result = Some ''a'', tr_error = None\<rparr>,
           \<lparr>tr_success = True, tr_index = 1, tr_result = Some ''b'', tr_error = None\<rparr>],
      \<lparr>successResults = [(1, ''b'')], failedTasks = []\<rparr>)"
  by (simp add: executor_runTasks_def retryFailedTasks_def executeTasks_def createTaskState_def
      task_returned_def task_settled_def originalIndex_def Map_get_def Map_new_def Let_def
      Promise_all_def upt_rec)

text \<open>
  C9. After a drain \<open>awaitAll\<close> returns the results at once and leaves the pool as it is
  (no task is started: \<open>started\<close> and \<open>chains\<close> are fields of the unchanged state), so a
  second call returns the same; \<open>waitForAll\<close> only reads the resolved promise.
\<close>

theorem awaitAll_idempotent:
  assumes "s = exec evs (init c)" and "AsyncTaskPool c1 = Inr s0" and "s1 = exec1 evs1 s0"
  shows "(runningCount s = 0 \<and> taskQueue s = [] \<and> submitted s \<noteq> [] \<longrightarrow>
            awaitAll w s = (Some (results s), s) \<and>
            awaitAll w' (snd (awaitAll w s)) = (Some (results s), s)) \<and>
         (runningTasks s1 = 0 \<and> waitingTasks s1 = [] \<and> submitted1 s1 \<noteq> [] \<longrightarrow>
            waitForAll s1 = Some (results1 s1))"
  using pool1_facts [OF assms(2,3)] finished_iff [OF assms(1)] allCompleted_iff [OF assms(2,3)]
  by (simp add: awaitAll_def waitForAll_def pool1_inv_def pool1_core_def)

theorem awaitAll_idempotent_witness:
  "awaitAll 8 (snd (awaitAll 7 (exec [Add ''A'', Settle 0 (Fulfilled ''a''), Finally 0]
       (init 3 :: (string, string) pool)))) =
     (Some [''a''], \<lparr>concurrency = 3, runningCount = 0, taskQueue = [], results = [''a''],
       finished = True, pendingResolvers = [], chains = [], started = [''A''],
       submitted = [''A''], succeeded = [''A''], resolved = []\<rparr>) \<and>
   waitForAll (exec1 [AddTask ''A'', TaskSettled 0 (Fulfilled ''a'')]
     \<lparr>maxConcurrency = 2, waitingTasks = [], runningTasks = 0, results1 = [],
       allCompleted = False, completion = None, awaiting = [], started1 = [],
       submitted1 = [], succeeded1 = []\<rparr>) = Some [''a'']"
  using awaitAll_idempotent [where evs = "[Add ''A'', Settle 0 (Fulfilled ''a''), Finally 0]"
      and c = 3 and w = 7 and w' = 8
      and ?evs1.0 = "[AddTask ''A'', TaskSettled 0 (Fulfilled ''a'')]",
      OF refl pool1_example refl]
  unfolding drained_example pool1_drained_example by (simp add: awaitAll_def)

text \<open>
  C10 holds for every array of tasks that fulfil or that fail with an \<open>Error\<close> or with a
  value \<open>String\<close> converts, for every limit of at least 1 and every order of completion
  (\<open>runConcurrently_aligned\<close>), and for no other array (\<open>runConcurrently_unconvertible\<close>).
  It fails at this input: three tasks with limit 2, the second failing with a value that
  \<open>String\<close> cannot convert. The conversion throws inside the \<open>catch\<close> block of
  \<open>runTask\<close>, and \<open>runConcurrently\<close> is rejected with what the conversion threw: the
  caller gets no array, in whatever order the tasks complete. The same happens with one
  task and limit 1.
\<close>

theorem runConcurrently_rejects:
  "runConcurrently [Inr ''a'', Inl (Unprintable ''TypeError''), Inr ''c''
       :: (string, string, string) thrown + string] 2 [1, 1, 0, 0] =
     Inl (Thrown ''TypeError'') \<and>
   runConcurrently [Inr ''a'', Inl (Unprintable ''TypeError''), Inr ''c''
       :: (string, string, string) thrown + string] 2 [0, 0, 0, 0, 0, 0] =
     Inl (Thrown ''TypeError'') \<and>
   runConcurrently [Inl (Unprintable ''TypeError'') :: (string, string, string) thrown + string]
     1 [] = Inl (Thrown ''TypeError'')"
  by (simp add: runConcurrently_def rc_run_def rc_loop.simps rc_step_def runTask_def onNext_def
      js_set_def Let_def eval_nat_numeral)

end
